theory Spec2Isabelle
  imports Main
begin

section \<open>Strings and characters\<close>

text \<open>
  A JavaScript string is modelled as a \<open>string\<close> (a list of 8-bit characters): the model
  covers the inputs whose code units are below 256. Within that range the white space of
  \<open>\s\<close> and of \<open>String.prototype.trim\<close> is TAB, LF, VT, FF, CR, SPACE and NBSP, and the
  line terminators (excluded by \<open>.\<close>, recognised by \<open>^\<close> and \<open>$\<close> under the flag m) are
  LF and CR.
\<close>

definition is_ws :: "char \<Rightarrow> bool" where
  "is_ws c = (c \<in> set [CHR 0x09, CHR 0x0A, CHR 0x0B, CHR 0x0C, CHR 0x0D, CHR 0x20, CHR 0xA0])"

definition is_lt :: "char \<Rightarrow> bool" where
  "is_lt c = (c = CHR 0x0A \<or> c = CHR 0x0D)"

definition digits :: string where
  "digits = ''0123456789''"

definition lowers :: string where
  "lowers = ''abcdefghijklmnopqrstuvwxyz''"

definition uppers :: string where
  "uppers = ''ABCDEFGHIJKLMNOPQRSTUVWXYZ''"

text \<open>The other case of an ASCII letter; every other character is its own.\<close>

definition flip_case :: "char \<Rightarrow> char" where
  "flip_case c =
     (case map_of (zip lowers uppers) c of
        Some d \<Rightarrow> d
      | None \<Rightarrow> (case map_of (zip uppers lowers) c of Some d \<Rightarrow> d | None \<Rightarrow> c))"

text \<open>\<open>String.prototype.trim\<close>.\<close>

definition trim :: "string \<Rightarrow> string" where
  "trim s = rev (dropWhile is_ws (rev (dropWhile is_ws s)))"

text \<open>\<open>Array.prototype.join\<close> on strings.\<close>

fun join :: "string \<Rightarrow> string list \<Rightarrow> string" where
  "join sep [] = []"
| "join sep [x] = x"
| "join sep (x # y # ys) = x @ sep @ join sep (y # ys)"

text \<open>\<open>String.prototype.slice\<close> with indices inside the string: empty when \<open>b \<le> a\<close>.\<close>

definition slice :: "string \<Rightarrow> nat \<Rightarrow> nat \<Rightarrow> string" where
  "slice s a b = take (b - a) (drop a s)"

text \<open>The decimal numeral of a number, as string concatenation with a number produces it.\<close>

fun show_nat :: "nat \<Rightarrow> string" where
  "show_nat n = (if n < 10 then [digits ! n] else show_nat (n div 10) @ [digits ! (n mod 10)])"

declare show_nat.simps [simp del]

section \<open>Regular expressions\<close>

text \<open>
  The patterns of the source are written as terms of \<open>rx\<close>; the matcher follows the
  backtracking semantics of ECMAScript (continuation passing, as in the language
  specification): alternatives left to right, greedy and lazy quantifiers, an iteration
  of a quantifier that matches the empty string is rejected once the minimum is reached,
  captures of a quantified group are reset at each iteration.
\<close>

datatype cls =
    Lit char            \<comment> \<open>one character\<close>
  | AnyCh               \<comment> \<open>\<open>[\s\S]\<close>\<close>
  | Dot                 \<comment> \<open>\<open>.\<close>\<close>
  | Space               \<comment> \<open>\<open>\s\<close>\<close>
  | Digit               \<comment> \<open>\<open>\d\<close>\<close>
  | OneOf string        \<comment> \<open>\<open>[...]\<close>\<close>
  | NoneOf string       \<comment> \<open>\<open>[^...]\<close>\<close>
  | NoneOfS string      \<comment> \<open>\<open>[^\s...]\<close>\<close>

fun cls_ok :: "cls \<Rightarrow> char \<Rightarrow> bool" where
  "cls_ok (Lit a) c = (c = a)"
| "cls_ok AnyCh c = True"
| "cls_ok Dot c = (\<not> is_lt c)"
| "cls_ok Space c = is_ws c"
| "cls_ok Digit c = (c \<in> set digits)"
| "cls_ok (OneOf s) c = (c \<in> set s)"
| "cls_ok (NoneOf s) c = (c \<notin> set s)"
| "cls_ok (NoneOfS s) c = (c \<notin> set s \<and> \<not> is_ws c)"

datatype rx =
    Eps
  | Chr cls
  | Seq rx rx
  | Alt rx rx
  | Rep bool nat "nat option" rx   \<comment> \<open>greedy?, minimum, maximum (None: unbounded), body\<close>
  | Grp nat rx                     \<comment> \<open>capture group number n\<close>
  | Bref nat                       \<comment> \<open>backreference \<open>\n\<close>\<close>
  | Bol bool                       \<comment> \<open>\<open>^\<close>; the flag is m (multiline)\<close>
  | Eol bool                       \<comment> \<open>\<open>$\<close>; the flag is m (multiline)\<close>
  | NotBehind cls                  \<comment> \<open>\<open>(?<!c)\<close> for a one-character class\<close>
  | NotAhead rx                    \<comment> \<open>\<open>(?!r)\<close>\<close>

type_synonym caps = "nat \<rightharpoonup> string"

text \<open>
  The matcher's state: the index reached in the input, the character before it (None at
  index 0), the input from that index on, and the captures.
\<close>

datatype mstate = MState (pos: nat) (prev: "char option") (rest: string) (caps: caps)

type_synonym cont = "mstate \<Rightarrow> mstate option"

fun step :: "cls \<Rightarrow> mstate \<Rightarrow> cont \<Rightarrow> mstate option" where
  "step p (MState i pv [] cs) k = None"
| "step p (MState i pv (c # r) cs) k =
     (if cls_ok p c then k (MState (Suc i) (Some c) r cs) else None)"

primrec grps :: "rx \<Rightarrow> nat list" where
  "grps Eps = []"
| "grps (Chr p) = []"
| "grps (Seq a b) = grps a @ grps b"
| "grps (Alt a b) = grps a @ grps b"
| "grps (Rep g mn mx r) = grps r"
| "grps (Grp n r) = n # grps r"
| "grps (Bref n) = []"
| "grps (Bol ml) = []"
| "grps (Eol ml) = []"
| "grps (NotBehind p) = []"
| "grps (NotAhead r) = grps r"

fun clear :: "nat list \<Rightarrow> mstate \<Rightarrow> mstate" where
  "clear gs (MState i pv r cs) = MState i pv r (\<lambda>n. if n \<in> set gs then None else cs n)"

fun setcap :: "nat \<Rightarrow> string \<Rightarrow> mstate \<Rightarrow> mstate" where
  "setcap n s (MState i pv r cs) = MState i pv r (cs(n \<mapsto> s))"

fun advance :: "string \<Rightarrow> mstate \<Rightarrow> mstate" where
  "advance [] x = x"
| "advance (c # s) (MState i pv r cs) = advance s (MState (Suc i) (Some c) (tl r) cs)"

text \<open>
  RepeatMatcher. The first argument bounds the number of iterations: an iteration either
  lowers a positive minimum or consumes a character, so \<open>minimum + length of the rest + 1\<close>
  is never used up.
\<close>

primrec rep :: "nat \<Rightarrow> (mstate \<Rightarrow> cont \<Rightarrow> mstate option) \<Rightarrow> nat list \<Rightarrow> bool \<Rightarrow> nat
    \<Rightarrow> nat option \<Rightarrow> mstate \<Rightarrow> cont \<Rightarrow> mstate option" where
  "rep 0 m gs greedy mn mx x k = None"
| "rep (Suc f) m gs greedy mn mx x k =
    (if mx = Some 0 then k x
     else if mn \<noteq> 0 then
       m (clear gs x) (\<lambda>y. rep f m gs greedy (mn - 1) (map_option (\<lambda>n. n - 1) mx) y k)
     else if greedy then
       (case m (clear gs x)
               (\<lambda>y. if pos y = pos x then None
                    else rep f m gs greedy 0 (map_option (\<lambda>n. n - 1) mx) y k) of
          Some z \<Rightarrow> Some z
        | None \<Rightarrow> k x)
     else
       (case k x of
          Some z \<Rightarrow> Some z
        | None \<Rightarrow>
            m (clear gs x)
              (\<lambda>y. if pos y = pos x then None
                   else rep f m gs greedy 0 (map_option (\<lambda>n. n - 1) mx) y k)))"

primrec m :: "rx \<Rightarrow> mstate \<Rightarrow> cont \<Rightarrow> mstate option" where
  "m Eps x k = k x"
| "m (Chr p) x k = step p x k"
| "m (Seq a b) x k = m a x (\<lambda>y. m b y k)"
| "m (Alt a b) x k = (case m a x k of Some z \<Rightarrow> Some z | None \<Rightarrow> m b x k)"
| "m (Rep g mn mx r) x k = rep (Suc (mn + length (rest x))) (m r) (grps r) g mn mx x k"
| "m (Grp n r) x k = m r x (\<lambda>y. k (setcap n (take (pos y - pos x) (rest x)) y))"
| "m (Bref n) x k =
     (case caps x n of
        None \<Rightarrow> k x
      | Some s \<Rightarrow> if take (length s) (rest x) = s then k (advance s x) else None)"
| "m (Bol ml) x k =
     (case prev x of None \<Rightarrow> k x | Some c \<Rightarrow> if ml \<and> is_lt c then k x else None)"
| "m (Eol ml) x k =
     (case rest x of [] \<Rightarrow> k x | c # cs \<Rightarrow> if ml \<and> is_lt c then k x else None)"
| "m (NotBehind p) x k =
     (case prev x of None \<Rightarrow> k x | Some c \<Rightarrow> if cls_ok p c then None else k x)"
| "m (NotAhead r) x k = (case m r x Some of Some z \<Rightarrow> None | None \<Rightarrow> k x)"

text \<open>A match attempt at one index of the input.\<close>

definition match_at :: "rx \<Rightarrow> nat \<Rightarrow> char option \<Rightarrow> string \<Rightarrow> mstate option" where
  "match_at r i pv s = m r (MState i pv s Map.empty) Some"

text \<open>Building blocks: a literal string, a literal string under the flag i, quantifiers.\<close>

definition str :: "string \<Rightarrow> rx" where
  "str s = foldr (\<lambda>c r. Seq (Chr (Lit c)) r) s Eps"

definition stri :: "string \<Rightarrow> rx" where
  "stri s = foldr (\<lambda>c r. Seq (Chr (OneOf [c, flip_case c])) r) s Eps"

definition seqs :: "rx list \<Rightarrow> rx" where
  "seqs rs = foldr Seq rs Eps"

definition star :: "rx \<Rightarrow> rx" where
  "star r = Rep True 0 None r"

definition plus :: "rx \<Rightarrow> rx" where
  "plus r = Rep True 1 None r"

definition opt :: "rx \<Rightarrow> rx" where
  "opt r = Rep True 0 (Some 1) r"

definition lazy_any :: rx where
  "lazy_any = Rep False 0 None (Chr AnyCh)"

section \<open>exec, test, replace and split\<close>

text \<open>
  \<open>RegExp.prototype.exec\<close> of a regular expression without the flag g: the leftmost index
  at which the pattern matches, with the state reached (its \<open>pos\<close> is the end of the
  match). Such an expression ignores \<open>lastIndex\<close> and always searches from index 0.
\<close>

primrec search :: "rx \<Rightarrow> nat \<Rightarrow> char option \<Rightarrow> string \<Rightarrow> (nat \<times> mstate) option" where
  "search r i pv [] =
     (case match_at r i pv [] of None \<Rightarrow> None | Some y \<Rightarrow> Some (i, y))"
| "search r i pv (c # cs) =
     (case match_at r i pv (c # cs) of
        Some y \<Rightarrow> Some (i, y)
      | None \<Rightarrow> search r (Suc i) (Some c) cs)"

definition exec :: "rx \<Rightarrow> string \<Rightarrow> (nat \<times> mstate) option" where
  "exec r s = search r 0 None s"

definition test :: "rx \<Rightarrow> string \<Rightarrow> bool" where
  "test r s = (exec r s \<noteq> None)"

text \<open>The value of a capture in a replacement (\<open>$1\<close>, or the callback's argument).\<close>

definition grp :: "caps \<Rightarrow> nat \<Rightarrow> string" where
  "grp cs n = (case cs n of Some s \<Rightarrow> s | None \<Rightarrow> [])"

text \<open>
  \<open>String.prototype.replace\<close> with an expression that has the flag g: the input is walked
  from left to right; at an index where the pattern matches, the callback's result for the
  matched text and captures is emitted and the walk resumes at the end of the match (one
  character further after an empty match); every other character is copied.
  \<open>skip\<close> counts the characters of the current match still to pass.
\<close>

primrec scan :: "rx \<Rightarrow> (string \<Rightarrow> caps \<Rightarrow> string) \<Rightarrow> nat \<Rightarrow> nat \<Rightarrow> char option \<Rightarrow> string
    \<Rightarrow> string" where
  "scan r f skip i pv [] =
     (if skip \<noteq> 0 then []
      else (case match_at r i pv [] of None \<Rightarrow> [] | Some y \<Rightarrow> f [] (caps y)))"
| "scan r f skip i pv (c # cs) =
     (if skip \<noteq> 0 then scan r f (skip - 1) (Suc i) (Some c) cs
      else (case match_at r i pv (c # cs) of
              None \<Rightarrow> c # scan r f 0 (Suc i) (Some c) cs
            | Some y \<Rightarrow>
                f (take (pos y - i) (c # cs)) (caps y) @
                (if pos y = i then c # scan r f 0 (Suc i) (Some c) cs
                 else scan r f (pos y - i - 1) (Suc i) (Some c) cs)))"

definition replace_g :: "rx \<Rightarrow> (string \<Rightarrow> caps \<Rightarrow> string) \<Rightarrow> string \<Rightarrow> string" where
  "replace_g r f s = scan r f 0 0 None s"

text \<open>\<open>String.prototype.replace\<close> with an expression without the flag g: the first match only.\<close>

definition replace_first :: "rx \<Rightarrow> (string \<Rightarrow> caps \<Rightarrow> string) \<Rightarrow> string \<Rightarrow> string" where
  "replace_first r f s =
     (case exec r s of
        None \<Rightarrow> s
      | Some (i, y) \<Rightarrow> take i s @ f (slice s i (pos y)) (caps y) @ drop (pos y) s)"

text \<open>
  \<open>String.prototype.split\<close> with a regular expression without groups and without a limit:
  the pattern is tried at each index; a match ends the current piece, unless it is an
  empty match at the start of the piece. \<open>piece\<close> is the current piece so far.
\<close>

primrec split_scan :: "rx \<Rightarrow> nat \<Rightarrow> nat \<Rightarrow> char option \<Rightarrow> string \<Rightarrow> string \<Rightarrow> string list" where
  "split_scan r skip i pv piece [] = [piece]"
| "split_scan r skip i pv piece (c # cs) =
     (if skip \<noteq> 0 then split_scan r (skip - 1) (Suc i) (Some c) piece cs
      else (case match_at r i pv (c # cs) of
              None \<Rightarrow> split_scan r 0 (Suc i) (Some c) (piece @ [c]) cs
            | Some y \<Rightarrow>
                if pos y = i then
                  (if piece = [] then split_scan r 0 (Suc i) (Some c) [c] cs
                   else piece # split_scan r 0 (Suc i) (Some c) [c] cs)
                else piece # split_scan r (pos y - i - 1) (Suc i) (Some c) [] cs))"

definition split_rx :: "rx \<Rightarrow> string \<Rightarrow> string list" where
  "split_rx r s =
     (if s = [] then (case match_at r 0 None [] of None \<Rightarrow> [[]] | Some y \<Rightarrow> [])
      else split_scan r 0 0 None [] s)"

section \<open>Helpers of the converter\<close>

subsection \<open>protectSegments\<close>

type_synonym store = "string \<rightharpoonup> string"

text \<open>A protection rule \<open>{ name, start, end }\<close>; \<open>end\<close> may be absent.\<close>

type_synonym pair = "string \<times> rx \<times> rx option"

definition token :: "string \<Rightarrow> nat \<Rightarrow> string" where
  "token name counter = ''__PROTECTED_'' @ name @ ''_'' @ show_nat counter @ ''__''"

text \<open>
  The end index of the span. \<open>endRe\<close> is built without the flag g, so its \<open>lastIndex\<close> is
  ignored and it is searched from index 0 like \<open>re\<close>. None is the \<open>break\<close>.
\<close>

definition end_index :: "rx option \<Rightarrow> string \<Rightarrow> nat \<Rightarrow> nat option" where
  "end_index en text afterStart =
     (case en of
        None \<Rightarrow> Some afterStart
      | Some e \<Rightarrow> (case exec e text of None \<Rightarrow> None | Some (j, z) \<Rightarrow> Some (pos z)))"

text \<open>
  The \<open>while\<close> loop of one rule over \<open>(text, store, counter)\<close>. The loop need not end (the
  text can grow at each round), so it is a partial function: None is a run that never
  leaves the loop.
\<close>

partial_function (option) protect_loop ::
  "string \<Rightarrow> rx \<Rightarrow> rx option \<Rightarrow> string \<Rightarrow> store \<Rightarrow> nat \<Rightarrow> (string \<times> store \<times> nat) option" where
  "protect_loop name start en text store counter =
     (case exec start text of
        None \<Rightarrow> Some (text, store, counter)
      | Some (startIdx, y) \<Rightarrow>
          (case end_index en text (pos y) of
             None \<Rightarrow> Some (text, store, counter)
           | Some endIdx \<Rightarrow>
               protect_loop name start en
                 (take startIdx text @ token name counter @ drop endIdx text)
                 (store(token name counter \<mapsto> slice text startIdx endIdx))
                 (Suc counter)))"

declare protect_loop.simps [code]

fun protect_pairs :: "pair list \<Rightarrow> string \<times> store \<times> nat \<Rightarrow> (string \<times> store \<times> nat) option" where
  "protect_pairs [] st = Some st"
| "protect_pairs ((name, start, en) # ps) (text, store, counter) =
     (case protect_loop name start en text store counter of
        None \<Rightarrow> None
      | Some st' \<Rightarrow> protect_pairs ps st')"

text \<open>The result \<open>{ text, restore }\<close>: the working text and the store that \<open>restore\<close> closes over.\<close>

definition protectSegments :: "string \<Rightarrow> pair list \<Rightarrow> (string \<times> store) option" where
  "protectSegments input pairs =
     (case protect_pairs pairs (input, Map.empty, 0) of
        None \<Rightarrow> None
      | Some (text, store, counter) \<Rightarrow> Some (text, store))"

text \<open>\<open>/__PROTECTED_([A-Z0-9_]+?)_(\d+)__/g\<close>\<close>

definition re_token :: rx where
  "re_token = seqs [str ''__PROTECTED_'',
                    Grp 1 (Rep False 1 None (Chr (OneOf (uppers @ digits @ ''_'')))),
                    str ''_'', Grp 2 (plus (Chr Digit)), str ''__'']"

text \<open>\<open>(t) => store[t] || t\<close>: an absent entry and an empty one both give back the token.\<close>

definition restore_token :: "store \<Rightarrow> string \<Rightarrow> string" where
  "restore_token store t =
     (case store t of None \<Rightarrow> t | Some chunk \<Rightarrow> if chunk = [] then t else chunk)"

definition restore :: "store \<Rightarrow> string \<Rightarrow> string" where
  "restore store s = replace_g re_token (\<lambda>t cs. restore_token store t) s"

subsection \<open>Sizes and headings\<close>

text \<open>
  \<open>parseInt(s, 10)\<close>: leading white space, an optional sign, then the longest run of
  decimal digits; None is NaN.
\<close>

definition digit_val :: "char \<Rightarrow> int" where
  "digit_val c = int (length (takeWhile (\<lambda>d. d \<noteq> c) digits))"

definition parse_digits :: "string \<Rightarrow> int option" where
  "parse_digits s =
     (let ds = takeWhile (\<lambda>c. c \<in> set digits) s
      in if ds = [] then None else Some (foldl (\<lambda>a c. 10 * a + digit_val c) 0 ds))"

definition parseInt :: "string \<Rightarrow> int option" where
  "parseInt s =
     (case dropWhile is_ws s of
        [] \<Rightarrow> None
      | c # cs \<Rightarrow>
          if c = CHR ''-'' then map_option uminus (parse_digits cs)
          else if c = CHR ''+'' then parse_digits cs
          else parse_digits (c # cs))"

text \<open>\<open>isFinite\<close> of a parsed integer: it is below the values that round to Infinity.\<close>

definition js_finite :: "int \<Rightarrow> bool" where
  "js_finite n = (\<bar>n\<bar> < 2 ^ 1024 - 2 ^ 970)"

definition sizeToHashes :: "(int \<times> string) list" where
  "sizeToHashes = [(24, ''#''), (18, ''##''), (16, ''###''), (14, ''####''), (12, ''#####''),
                   (10, ''######'')]"

definition sizeToHeading :: "string \<Rightarrow> string option" where
  "sizeToHeading sizeStr =
     (case parseInt sizeStr of
        None \<Rightarrow> None
      | Some n \<Rightarrow>
          if \<not> js_finite n then None
          else map_option snd (find (\<lambda>(threshold, hashes). n \<ge> threshold) sizeToHashes))"

definition headingToSize :: "string \<Rightarrow> nat" where
  "headingToSize hashes =
     (if length hashes = 1 then 24 else if length hashes = 2 then 18
      else if length hashes = 3 then 16 else if length hashes = 4 then 14
      else if length hashes = 5 then 12 else 10)"

subsection \<open>Quotes\<close>

definition nl :: char where
  "nl = CHR 0x0A"

text \<open>\<open>/^\n+|\n+$/g\<close>\<close>

definition re_edge_nl :: rx where
  "re_edge_nl = Alt (Seq (Bol False) (plus (Chr (Lit nl)))) (Seq (plus (Chr (Lit nl))) (Eol False))"

definition strip_edge_nl :: "string \<Rightarrow> string" where
  "strip_edge_nl s = replace_g re_edge_nl (\<lambda>t cs. []) s"

text \<open>\<open>/\r?\n/\<close>\<close>

definition re_newline :: rx where
  "re_newline = Seq (opt (Chr (Lit (CHR 0x0D)))) (Chr (Lit nl))"

definition quoteBodyToMarkdown :: "string \<Rightarrow> string" where
  "quoteBodyToMarkdown body =
     join [nl] (map (\<lambda>l. ''> '' @ l) (split_rx re_newline (strip_edge_nl body))) @ [nl, nl]"

text \<open>\<open>/^>\s?/\<close>\<close>

definition re_quote_mark :: rx where
  "re_quote_mark = seqs [Bol False, Chr (Lit (CHR ''>'')), opt (Chr Space)]"

definition flush :: "string list \<Rightarrow> string list \<Rightarrow> string list" where
  "flush out buf =
     (if buf \<noteq> [] then
        out @ [''[quote]'' @ [nl] @
               join [nl] (map (\<lambda>l. replace_first re_quote_mark (\<lambda>t cs. []) l) buf) @
               [nl] @ ''[/quote]'']
      else out)"

text \<open>The \<open>for\<close> loop over the lines, with \<open>out\<close> and \<open>buf\<close>, and the final \<open>flush\<close>.\<close>

fun quote_lines :: "string list \<Rightarrow> string list \<Rightarrow> string list \<Rightarrow> string list" where
  "quote_lines [] out buf = flush out buf"
| "quote_lines (l # ls) out buf =
     (if test re_quote_mark l then quote_lines ls out (buf @ [l])
      else quote_lines ls (flush out buf @ [l]) [])"

definition blockquoteMarkdownToBgg :: "string \<Rightarrow> string" where
  "blockquoteMarkdownToBgg md = join [nl] (quote_lines (split_rx re_newline md) [] [])"

section \<open>BGG to Markdown\<close>

text \<open>\<open>/\[tag\]([\s\S]*?)\[\/tag\]/gi\<close>, for the tags without an argument.\<close>

definition re_tag :: "string \<Rightarrow> string \<Rightarrow> rx" where
  "re_tag opn clo = seqs [stri opn, Grp 1 lazy_any, stri clo]"

text \<open>A replacement string \<open>a$1b\<close>.\<close>

definition wrap :: "string \<Rightarrow> string \<Rightarrow> string \<Rightarrow> caps \<Rightarrow> string" where
  "wrap a b t cs = a @ grp cs 1 @ b"

definition bgg_code :: "string \<Rightarrow> string" where
  "bgg_code s = replace_g (re_tag ''[code]'' ''[/code]'')
     (\<lambda>t cs. [nl] @ ''```'' @ [nl] @ strip_edge_nl (grp cs 1) @ [nl] @ ''```'' @ [nl]) s"

definition bgg_tt :: "string \<Rightarrow> string" where
  "bgg_tt s = replace_g (re_tag ''[tt]'' ''[/tt]'') (\<lambda>t cs. ''`'' @ grp cs 1 @ ''`'') s"

definition bgg_b :: "string \<Rightarrow> string" where
  "bgg_b s = replace_g (re_tag ''[b]'' ''[/b]'') (wrap ''**'' ''**'') s"

definition bgg_i :: "string \<Rightarrow> string" where
  "bgg_i s = replace_g (re_tag ''[i]'' ''[/i]'') (wrap ''*'' ''*'') s"

definition bgg_u :: "string \<Rightarrow> string" where
  "bgg_u s = replace_g (re_tag ''[u]'' ''[/u]'') (wrap ''<u>'' ''</u>'') s"

definition bgg_s :: "string \<Rightarrow> string" where
  "bgg_s s = replace_g (re_tag ''[s]'' ''[/s]'') (wrap ''~~'' ''~~'') s"

definition bgg_strike :: "string \<Rightarrow> string" where
  "bgg_strike s = replace_g (re_tag ''[-]'' ''[/-]'') (wrap ''~~'' ''~~'') s"

text \<open>\<open>/\[url=([^\]]+)\]([\s\S]*?)\[\/url\]/gi\<close>\<close>

definition re_url :: rx where
  "re_url = seqs [stri ''[url='', Grp 1 (plus (Chr (NoneOf '']''))), stri '']'', Grp 2 lazy_any,
                  stri ''[/url]'']"

definition bgg_url :: "string \<Rightarrow> string" where
  "bgg_url s = replace_g re_url (\<lambda>t cs. ''['' @ grp cs 2 @ ''](''  @ grp cs 1 @ '')'') s"

definition bgg_img :: "string \<Rightarrow> string" where
  "bgg_img s = replace_g (re_tag ''[img]'' ''[/img]'') (\<lambda>t cs. ''![]('' @ grp cs 1 @ '')'') s"

text \<open>\<open>/\[thing=(\d+)\]([\s\S]*?)\[\/thing\]/gi\<close>\<close>

definition re_thing :: rx where
  "re_thing = seqs [stri ''[thing='', Grp 1 (plus (Chr Digit)), stri '']'', Grp 2 lazy_any,
                    stri ''[/thing]'']"

definition bgg_thing :: "string \<Rightarrow> string" where
  "bgg_thing s = replace_g re_thing
     (\<lambda>t cs. ''['' @ grp cs 2 @ ''](https://boardgamegeek.com/thing/'' @ grp cs 1 @ '')'') s"

text \<open>\<open>/\[user=\d+\]([\s\S]*?)\[\/user\]/gi\<close>\<close>

definition re_user :: rx where
  "re_user = seqs [stri ''[user='', plus (Chr Digit), stri '']'', Grp 1 lazy_any, stri ''[/user]'']"

definition bgg_user :: "string \<Rightarrow> string" where
  "bgg_user s = replace_g re_user
     (\<lambda>t cs. ''[@'' @ grp cs 1 @ ''](https://boardgamegeek.com/user/'' @ grp cs 1 @ '')'') s"

definition bgg_quote :: "string \<Rightarrow> string" where
  "bgg_quote s = replace_g (re_tag ''[quote]'' ''[/quote]'') (\<lambda>t cs. quoteBodyToMarkdown (grp cs 1)) s"

text \<open>\<open>/\n?\[\*\]\s*/i\<close> and \<open>/\[\/*\]/g\<close>\<close>

definition re_item :: rx where
  "re_item = seqs [opt (Chr (Lit nl)), stri ''[*]'', star (Chr Space)]"

definition re_remnant :: rx where
  "re_remnant = seqs [Chr (Lit (CHR ''['')), star (Chr (Lit (CHR ''/''))), Chr (Lit (CHR '']''))]"

text \<open>The items of a list body, and the text of one item.\<close>

definition list_items :: "string \<Rightarrow> string list" where
  "list_items body =
     filter (\<lambda>s. s \<noteq> [])
       (map trim (split_rx re_item (replace_g re_newline (\<lambda>t cs. [nl]) body)))"

definition item_text :: "string \<Rightarrow> string" where
  "item_text it = trim (replace_g re_remnant (\<lambda>t cs. []) it)"

definition list_body :: "string \<Rightarrow> string" where
  "list_body body =
     (let items = list_items body
      in if items = [] then []
         else [nl] @ join [nl] (map (\<lambda>it. ''- '' @ item_text it) items) @ [nl])"

definition olist_body :: "string \<Rightarrow> string" where
  "olist_body body =
     (let items = list_items body
      in if items = [] then []
         else [nl] @
              join [nl] (map (\<lambda>(i, it). show_nat (i + 1) @ ''. '' @ item_text it)
                             (zip [0 ..< length items] items)) @
              [nl])"

definition bgg_list :: "string \<Rightarrow> string" where
  "bgg_list s = replace_g (re_tag ''[list]'' ''[/list]'') (\<lambda>t cs. list_body (grp cs 1)) s"

definition bgg_olist :: "string \<Rightarrow> string" where
  "bgg_olist s = replace_g (re_tag ''[olist]'' ''[/olist]'') (\<lambda>t cs. olist_body (grp cs 1)) s"

text \<open>\<open>/\[size=(\d{1,3})\]([\s\S]*?)\[\/size\]/gi\<close>, \<open>/^(?:.|\n){0,120}$/\<close> and \<open>/\n/\<close>\<close>

definition re_size :: rx where
  "re_size = seqs [stri ''[size='', Grp 1 (Rep True 1 (Some 3) (Chr Digit)), stri '']'',
                   Grp 2 lazy_any, stri ''[/size]'']"

definition re_upto120 :: rx where
  "re_upto120 = seqs [Bol False, Rep True 0 (Some 120) (Alt (Chr Dot) (Chr (Lit nl))), Eol False]"

definition re_nl :: rx where
  "re_nl = Chr (Lit nl)"

definition size_body :: "string \<Rightarrow> string \<Rightarrow> string" where
  "size_body sz text =
     (let hashes = sizeToHeading sz; inner = trim text
      in case hashes of
           None \<Rightarrow> inner
         | Some h \<Rightarrow>
             if test re_upto120 inner \<and> \<not> test re_nl inner
             then [nl] @ h @ '' '' @ inner @ [nl, nl]
             else inner)"

definition bgg_size :: "string \<Rightarrow> string" where
  "bgg_size s = replace_g re_size (\<lambda>t cs. size_body (grp cs 1) (grp cs 2)) s"

text \<open>\<open>/\[br\s*\/?\]/gi\<close>\<close>

definition re_br :: rx where
  "re_br = seqs [stri ''[br'', star (Chr Space), opt (Chr (Lit (CHR ''/''))), stri '']'']"

definition bgg_br :: "string \<Rightarrow> string" where
  "bgg_br s = replace_g re_br (\<lambda>t cs. ''  '' @ [nl]) s"

text \<open>The passes between protection and restoration, in the order of the source.\<close>

definition bgg_passes :: "(string \<Rightarrow> string) list" where
  "bgg_passes = [bgg_code, bgg_tt, bgg_b, bgg_i, bgg_u, bgg_s, bgg_strike, bgg_url, bgg_img,
                 bgg_thing, bgg_user, bgg_quote, bgg_list, bgg_olist, bgg_size, bgg_br]"

definition run_passes :: "(string \<Rightarrow> string) list \<Rightarrow> string \<Rightarrow> string" where
  "run_passes ps s = fold (\<lambda>p out. p out) ps s"

definition bgg_pairs :: "pair list" where
  "bgg_pairs = [(''CODE_BGG'', stri ''[code]'', Some (stri ''[/code]''))]"

text \<open>None: the protector does not return.\<close>

definition bggToMarkdown :: "string \<Rightarrow> string option" where
  "bggToMarkdown input =
     (if input = [] then Some input
      else (case protectSegments input bgg_pairs of
              None \<Rightarrow> None
            | Some (text, store) \<Rightarrow> Some (restore store (run_passes bgg_passes text))))"

section \<open>Markdown to BGG\<close>

definition fence :: string where
  "fence = ''```''"

text \<open>\<open>/```([a-z0-9_-]+)?\n([\s\S]*?)\n```/gi\<close>\<close>

definition re_fence :: rx where
  "re_fence = seqs [str fence, opt (Grp 1 (plus (Chr (OneOf (lowers @ uppers @ digits @ ''_-''))))),
                    Chr (Lit nl), Grp 2 lazy_any, Chr (Lit nl), str fence]"

definition md_fence :: "string \<Rightarrow> string" where
  "md_fence s = replace_g re_fence
     (\<lambda>t cs. ''[code]'' @ [nl] @ strip_edge_nl (grp cs 2) @ [nl] @ ''[/code]'') s"

text \<open>\<open>/`([^`\n]+)`/g\<close>\<close>

definition re_inline_code :: rx where
  "re_inline_code = seqs [Chr (Lit (CHR 0x60)), Grp 1 (plus (Chr (NoneOf [CHR 0x60, nl]))),
                          Chr (Lit (CHR 0x60))]"

definition md_inline_code :: "string \<Rightarrow> string" where
  "md_inline_code s = replace_g re_inline_code (wrap ''[tt]'' ''[/tt]'') s"

text \<open>\<open>/^(#{1,6})\s+(.+)$/gm\<close>\<close>

definition re_heading :: rx where
  "re_heading = seqs [Bol True, Grp 1 (Rep True 1 (Some 6) (Chr (Lit (CHR ''#'')))),
                      plus (Chr Space), Grp 2 (plus (Chr Dot)), Eol True]"

definition md_heading :: "string \<Rightarrow> string" where
  "md_heading s = replace_g re_heading
     (\<lambda>t cs. ''[size='' @ show_nat (headingToSize (grp cs 1)) @ '']'' @ trim (grp cs 2) @ ''[/size]'') s"

text \<open>\<open>/\*\*([\s\S]*?)\*\*/g\<close>\<close>

definition re_delim :: "string \<Rightarrow> rx" where
  "re_delim d = seqs [str d, Grp 1 lazy_any, str d]"

definition md_bold :: "string \<Rightarrow> string" where
  "md_bold s = replace_g (re_delim ''**'') (wrap ''[b]'' ''[/b]'') s"

text \<open>\<open>/(?<!\*)\*([^\s*][\s\S]*?)\*(?!\*)/g\<close> and \<open>/(?<!_)_([^\s_][\s\S]*?)_(?!_)/g\<close>\<close>

definition re_italic :: "char \<Rightarrow> rx" where
  "re_italic d = seqs [NotBehind (Lit d), Chr (Lit d), Grp 1 (Seq (Chr (NoneOfS [d])) lazy_any),
                       Chr (Lit d), NotAhead (Chr (Lit d))]"

definition md_italic_star :: "string \<Rightarrow> string" where
  "md_italic_star s = replace_g (re_italic (CHR ''*'')) (wrap ''[i]'' ''[/i]'') s"

definition md_italic_underscore :: "string \<Rightarrow> string" where
  "md_italic_underscore s = replace_g (re_italic (CHR ''_'')) (wrap ''[i]'' ''[/i]'') s"

definition md_strike :: "string \<Rightarrow> string" where
  "md_strike s = replace_g (re_delim ''~~'') (wrap ''[s]'' ''[/s]'') s"

text \<open>
  \<open>/\[([^\]]+)\]\((https?:\/\/[^)]+)\)/g\<close>,
  \<open>/boardgamegeek\.com\/(?:thing|boardgame)\/(\d+)/i\<close> and
  \<open>/boardgamegeek\.com\/user\/([A-Za-z0-9_-]+)/i\<close>
\<close>

definition re_href :: rx where
  "re_href = seqs [str ''http'', opt (Chr (Lit (CHR ''s''))), str ''://'', plus (Chr (NoneOf '')''))]"

definition re_link :: rx where
  "re_link = seqs [str ''['', Grp 1 (plus (Chr (NoneOf '']''))), str '']('', Grp 2 re_href, str '')'']"

definition re_thing_url :: rx where
  "re_thing_url = seqs [stri ''boardgamegeek.com/'', Alt (stri ''thing'') (stri ''boardgame''),
                        stri ''/'', Grp 1 (plus (Chr Digit))]"

definition re_user_url :: rx where
  "re_user_url = seqs [stri ''boardgamegeek.com/user/'',
                       Grp 1 (plus (Chr (OneOf (uppers @ lowers @ digits @ ''_-''))))]"

definition link_body :: "string \<Rightarrow> string \<Rightarrow> string" where
  "link_body text href =
     (case exec re_thing_url href of
        Some (i, y) \<Rightarrow> ''[thing='' @ grp (caps y) 1 @ '']'' @ text @ ''[/thing]''
      | None \<Rightarrow>
          (case exec re_user_url href of
             Some (i, y) \<Rightarrow> ''[user=0]'' @ grp (caps y) 1 @ ''[/user]''
           | None \<Rightarrow> ''[url='' @ href @ '']'' @ text @ ''[/url]''))"

definition md_link :: "string \<Rightarrow> string" where
  "md_link s = replace_g re_link (\<lambda>t cs. link_body (grp cs 1) (grp cs 2)) s"

text \<open>\<open>/!\[([^\]]*)\]\((https?:\/\/[^)]+)\)/g\<close>\<close>

definition re_image :: rx where
  "re_image = seqs [str ''!['', Grp 1 (star (Chr (NoneOf '']''))), str '']('', Grp 2 re_href, str '')'']"

definition md_image :: "string \<Rightarrow> string" where
  "md_image s = replace_g re_image (\<lambda>t cs. ''[img]'' @ grp cs 2 @ ''[/img]'') s"

text \<open>
  \<open>/(?:^|\n)([ \t]*)([-*+])\s+(.+)(?:\n\1\2\s+.+)*/g\<close> with \<open>/^[ \t]*[-*+]\s+/\<close>, and
  \<open>/(?:^|\n)([ \t]*)\d+\.\s+(.+)(?:\n\1\d+\.\s+.+)*/g\<close> with \<open>/^[ \t]*\d+\.\s+/\<close>
\<close>

definition indent :: cls where
  "indent = OneOf [CHR '' '', CHR 0x09]"

definition bullet :: cls where
  "bullet = OneOf ''-*+''"

definition re_ul :: rx where
  "re_ul = seqs [Alt (Bol False) (Chr (Lit nl)), Grp 1 (star (Chr indent)), Grp 2 (Chr bullet),
                 plus (Chr Space), Grp 3 (plus (Chr Dot)),
                 star (seqs [Chr (Lit nl), Bref 1, Bref 2, plus (Chr Space), plus (Chr Dot)])]"

definition re_ul_marker :: rx where
  "re_ul_marker = seqs [Bol False, star (Chr indent), Chr bullet, plus (Chr Space)]"

definition re_ol :: rx where
  "re_ol = seqs [Alt (Bol False) (Chr (Lit nl)), Grp 1 (star (Chr indent)), plus (Chr Digit),
                 str ''.'', plus (Chr Space), Grp 2 (plus (Chr Dot)),
                 star (seqs [Chr (Lit nl), Bref 1, plus (Chr Digit), str ''.'', plus (Chr Space),
                             plus (Chr Dot)])]"

definition re_ol_marker :: rx where
  "re_ol_marker = seqs [Bol False, star (Chr indent), plus (Chr Digit), str ''.'', plus (Chr Space)]"

definition block_items :: "rx \<Rightarrow> string \<Rightarrow> string list" where
  "block_items marker block =
     map (\<lambda>l. trim (replace_first marker (\<lambda>t cs. []) l)) (split_rx re_newline (trim block))"

definition block_body :: "string \<Rightarrow> string \<Rightarrow> rx \<Rightarrow> string \<Rightarrow> string" where
  "block_body opn clo marker block =
     [nl] @ opn @ [nl] @ join [nl] (map (\<lambda>it. ''[*] '' @ it) (block_items marker block)) @ [nl] @ clo"

definition md_ul :: "string \<Rightarrow> string" where
  "md_ul s = replace_g re_ul (\<lambda>t cs. block_body ''[list]'' ''[/list]'' re_ul_marker t) s"

definition md_ol :: "string \<Rightarrow> string" where
  "md_ol s = replace_g re_ol (\<lambda>t cs. block_body ''[olist]'' ''[/olist]'' re_ol_marker t) s"

text \<open>\<open>/  \n/g\<close> and \<open>/<u>([\s\S]*?)<\/u>/gi\<close>\<close>

definition md_br :: "string \<Rightarrow> string" where
  "md_br s = replace_g (str (''  '' @ [nl])) (\<lambda>t cs. ''[br]'' @ [nl]) s"

definition md_u :: "string \<Rightarrow> string" where
  "md_u s = replace_g (re_tag ''<u>'' ''</u>'') (wrap ''[u]'' ''[/u]'') s"

definition md_passes :: "(string \<Rightarrow> string) list" where
  "md_passes = [md_fence, md_inline_code, blockquoteMarkdownToBgg, md_heading, md_bold,
                md_italic_star, md_italic_underscore, md_strike, md_link, md_image, md_ul, md_ol,
                md_br, md_u]"

text \<open>\<open>{ name: 'CODE_FENCE', start: /```[\s\S]*?\n/, end: /\n```/ }\<close>\<close>

definition md_pairs :: "pair list" where
  "md_pairs = [(''CODE_FENCE'', seqs [str fence, lazy_any, Chr (Lit nl)],
                Some (Seq (Chr (Lit nl)) (str fence)))]"

definition markdownToBgg :: "string \<Rightarrow> string option" where
  "markdownToBgg input =
     (if input = [] then Some input
      else (case protectSegments input md_pairs of
              None \<Rightarrow> None
            | Some (text, store) \<Rightarrow> Some (restore store (run_passes md_passes text))))"

section \<open>convert\<close>

text \<open>The second argument is any JavaScript value; \<open>===\<close> holds for the one string only.\<close>

datatype jsval = JUndefined | JNull | JBool bool | JNum int | JStr string

definition convert :: "string \<Rightarrow> jsval \<Rightarrow> string option" where
  "convert input direction =
     (if direction = JStr ''bgg2md'' then bggToMarkdown input else markdownToBgg input)"

section \<open>Reasoning about the matcher\<close>

definition prev_after :: "char option \<Rightarrow> string \<Rightarrow> char option" where
  "prev_after pv u = (if u = [] then pv else Some (last u))"

fun ci_prefix :: "string \<Rightarrow> string \<Rightarrow> bool" where
  "ci_prefix [] s = True"
| "ci_prefix (a # u) [] = False"
| "ci_prefix (a # u) (c # s) = ((c = a \<or> c = flip_case a) \<and> ci_prefix u s)"

lemma prev_after_Nil [simp]: "prev_after pv [] = pv"
  by (simp add: prev_after_def)

lemma prev_after_Cons [simp]: "prev_after pv (c # u) = prev_after (Some c) u"
  by (simp add: prev_after_def)

lemma prev_after_append [simp]: "prev_after pv (u @ v) = prev_after (prev_after pv u) v"
  by (induction u arbitrary: pv) simp_all

lemma step_state:
  "step p (MState i pv s cs) k =
     (case s of [] \<Rightarrow> None | c # r \<Rightarrow> if cls_ok p c then k (MState (Suc i) (Some c) r cs) else None)"
  by (cases s) simp_all

lemma stri_Nil [simp]: "stri [] = Eps"
  by (simp add: stri_def)

lemma stri_Cons: "stri (a # u) = Seq (Chr (OneOf [a, flip_case a])) (stri u)"
  by (simp add: stri_def)

lemma str_Nil [simp]: "str [] = Eps"
  by (simp add: str_def)

lemma str_Cons: "str (a # u) = Seq (Chr (Lit a)) (str u)"
  by (simp add: str_def)

lemma seqs_Nil [simp]: "seqs [] = Eps"
  by (simp add: seqs_def)

lemma seqs_Cons [simp]: "seqs (r # rs) = Seq r (seqs rs)"
  by (simp add: seqs_def)

lemma m_stri:
  "m (stri u) (MState i pv s cs) k =
     (if ci_prefix u s
      then k (MState (i + length u) (prev_after pv (take (length u) s)) (drop (length u) s) cs)
      else None)"
proof (induction u arbitrary: i pv s)
  case Nil
  then show ?case by simp
next
  case (Cons a u)
  show ?case
  proof (cases s)
    case Nil
    then show ?thesis by (simp add: stri_Cons)
  next
    case (Cons c s')
    then show ?thesis
      using Cons.IH [of "Suc i" "Some c" s'] by (simp add: stri_Cons)
  qed
qed

lemma m_str:
  "m (str u) (MState i pv s cs) k =
     (if take (length u) s = u
      then k (MState (i + length u) (prev_after pv u) (drop (length u) s) cs)
      else None)"
proof (induction u arbitrary: i pv s)
  case Nil
  then show ?case by simp
next
  case (Cons a u)
  show ?case
  proof (cases s)
    case Nil
    then show ?thesis by (simp add: str_Cons)
  next
    case (Cons c s')
    then show ?thesis
      using Cons.IH [of "Suc i" "Some c" s'] by (auto simp: str_Cons)
  qed
qed

text \<open>A lazy \<open>[\s\S]*?\<close>: the continuation is tried at each index in turn.\<close>

fun lazy_try :: "cont \<Rightarrow> nat \<Rightarrow> char option \<Rightarrow> string \<Rightarrow> caps \<Rightarrow> mstate option" where
  "lazy_try k i pv [] cs = k (MState i pv [] cs)"
| "lazy_try k i pv (c # s) cs =
     (case k (MState i pv (c # s) cs) of
        Some z \<Rightarrow> Some z
      | None \<Rightarrow> lazy_try k (Suc i) (Some c) s cs)"

lemma rep_lazy_any:
  "length s < f \<Longrightarrow>
   rep f (m (Chr AnyCh)) [] False 0 None (MState i pv s cs) k = lazy_try k i pv s cs"
proof (induction s arbitrary: f i pv)
  case Nil
  then obtain f' where "f = Suc f'" by (cases f) auto
  then show ?case by (simp split: option.splits)
next
  case (Cons c s)
  then obtain f' where f: "f = Suc f'" and "length s < f'" by (cases f) auto
  with Cons.IH [of f' "Suc i" "Some c"] show ?case
    by (simp split: option.splits)
qed

lemma m_lazy_any: "m lazy_any (MState i pv s cs) k = lazy_try k i pv s cs"
  by (simp add: lazy_any_def rep_lazy_any del: rep.simps)


lemma lazy_try_hit:
  "k (MState i pv s cs) = Some z \<Longrightarrow> lazy_try k i pv s cs = Some z"
  by (cases s) simp_all

lemma lazy_try_first:
  assumes miss: "\<And>j pv' c s'. c \<noteq> b \<Longrightarrow> k (MState j pv' (c # s') cs) = None"
    and "b \<notin> set u"
    and "k (MState (i + length u) (prev_after pv u) v cs) = Some z"
  shows "lazy_try k i pv (u @ v) cs = Some z"
  using assms(2,3)
proof (induction u arbitrary: i pv)
  case Nil
  then show ?case by (simp add: lazy_try_hit)
next
  case (Cons c u)
  from Cons.prems have "c \<noteq> b" by auto
  then have "k (MState i pv (c # u @ v) cs) = None" by (rule miss)
  moreover have "lazy_try k (Suc i) (Some c) (u @ v) cs = Some z"
    using Cons.prems by (intro Cons.IH) auto
  ultimately show ?case by simp
qed

subsection \<open>The walk of replace\<close>

lemma scan_skip:
  "scan r f (length t) i pv (t @ s) = scan r f 0 (i + length t) (prev_after pv t) s"
  by (induction t arbitrary: i pv) simp_all

lemma scan_hit:
  assumes "match_at r i pv (t @ s) = Some y" and "pos y = i + length t" and "t \<noteq> []"
  shows "scan r f 0 i pv (t @ s) = f t (caps y) @ scan r f 0 (i + length t) (prev_after pv t) s"
proof -
  from assms(3) obtain c t' where t: "t = c # t'" by (cases t) auto
  have "scan r f (length t') (Suc i) (Some c) (t' @ s) =
          scan r f 0 (Suc i + length t') (prev_after (Some c) t') s"
    by (rule scan_skip)
  with assms(1,2) show ?thesis
    by (simp add: t)
qed

lemma scan_miss:
  assumes miss: "\<And>j pv' c s'. c \<noteq> b \<Longrightarrow> match_at r j pv' (c # s') = None"
    and "b \<notin> set u"
  shows "scan r f 0 i pv (u @ s) = u @ scan r f 0 (i + length u) (prev_after pv u) s"
  using assms(2)
proof (induction u arbitrary: i pv)
  case Nil
  then show ?case by simp
next
  case (Cons c u)
  then have "match_at r i pv (c # u @ s) = None" by (intro miss) auto
  with Cons show ?case by simp
qed

subsection \<open>Patterns that do not look behind match alike at every index\<close>

primrec anchor_free :: "rx \<Rightarrow> bool" where
  "anchor_free Eps = True"
| "anchor_free (Chr p) = True"
| "anchor_free (Seq a b) = (anchor_free a \<and> anchor_free b)"
| "anchor_free (Alt a b) = (anchor_free a \<and> anchor_free b)"
| "anchor_free (Rep g mn mx r) = anchor_free r"
| "anchor_free (Grp n r) = anchor_free r"
| "anchor_free (Bref n) = True"
| "anchor_free (Bol ml) = False"
| "anchor_free (Eol ml) = True"
| "anchor_free (NotBehind p) = False"
| "anchor_free (NotAhead r) = anchor_free r"

definition sh :: "nat \<Rightarrow> mstate \<Rightarrow> mstate \<Rightarrow> bool" where
  "sh d x x' = (pos x' = pos x + d \<and> rest x' = rest x \<and> caps x' = caps x)"

definition sh_cont :: "nat \<Rightarrow> cont \<Rightarrow> cont \<Rightarrow> bool" where
  "sh_cont d k k' = (\<forall>y y'. sh d y y' \<longrightarrow> rel_option (sh d) (k y) (k' y'))"

lemma sh_contD: "sh_cont d k k' \<Longrightarrow> sh d y y' \<Longrightarrow> rel_option (sh d) (k y) (k' y')"
  by (simp add: sh_cont_def)

lemma sh_clear: "sh d x x' \<Longrightarrow> sh d (clear gs x) (clear gs x')"
  by (cases x; cases x') (simp add: sh_def)

lemma sh_setcap: "sh d x x' \<Longrightarrow> sh d (setcap n s x) (setcap n s x')"
  by (cases x; cases x') (simp add: sh_def)

lemma sh_advance: "sh d x x' \<Longrightarrow> sh d (advance s x) (advance s x')"
proof (induction s arbitrary: x x')
  case Nil
  then show ?case by simp
next
  case (Cons c s)
  obtain i pv r cs where x: "x = MState i pv r cs" by (cases x)
  obtain i' pv' r' cs' where x': "x' = MState i' pv' r' cs'" by (cases x')
  from Cons.prems have "sh d (MState (Suc i) (Some c) (tl r) cs) (MState (Suc i') (Some c) (tl r') cs')"
    by (simp add: sh_def x x')
  then show ?case
    unfolding x x' advance.simps by (rule Cons.IH)
qed

lemma sh_step:
  assumes "sh d x x'" and "sh_cont d k k'"
  shows "rel_option (sh d) (step p x k) (step p x' k')"
proof -
  obtain i pv r cs where x: "x = MState i pv r cs" by (cases x)
  obtain i' pv' r' cs' where x': "x' = MState i' pv' r' cs'" by (cases x')
  from assms(1) have e: "i' = i + d" "r' = r" "cs' = cs" by (simp_all add: sh_def x x')
  show ?thesis
  proof (cases r)
    case Nil
    then show ?thesis by (simp add: x x' e)
  next
    case (Cons c r0)
    have "sh d (MState (Suc i) (Some c) r0 cs) (MState (Suc (i + d)) (Some c) r0 cs)"
      by (simp add: sh_def)
    from sh_contD [OF assms(2) this] show ?thesis
      by (simp add: x x' e Cons)
  qed
qed

lemma rel_option_case:
  assumes "rel_option R a a'" and "rel_option R b b'"
  shows "rel_option R (case a of Some z \<Rightarrow> Some z | None \<Rightarrow> b) (case a' of Some z \<Rightarrow> Some z | None \<Rightarrow> b')"
  using assms by (cases a; cases a') simp_all

lemma sh_rep:
  assumes body: "\<And>x x' k k'. sh d x x' \<Longrightarrow> sh_cont d k k' \<Longrightarrow> rel_option (sh d) (m0 x k) (m0 x' k')"
    and "sh d x x'" and "sh_cont d k k'"
  shows "rel_option (sh d) (rep f m0 gs g mn mx x k) (rep f m0 gs g mn mx x' k')"
  using assms(2,3)
proof (induction f arbitrary: x x' mn mx)
  case 0
  then show ?case by simp
next
  case (Suc f)
  have kk: "rel_option (sh d) (k x) (k' x')"
    using Suc.prems by (simp add: sh_contD)
  have c1: "sh_cont d (\<lambda>y. rep f m0 gs g (mn - 1) (map_option (\<lambda>n. n - 1) mx) y k)
                      (\<lambda>y. rep f m0 gs g (mn - 1) (map_option (\<lambda>n. n - 1) mx) y k')"
    unfolding sh_cont_def using Suc.IH Suc.prems(2) by blast
  have c2: "sh_cont d (\<lambda>y. if pos y = pos x then None
                           else rep f m0 gs g 0 (map_option (\<lambda>n. n - 1) mx) y k)
                      (\<lambda>y. if pos y = pos x' then None
                           else rep f m0 gs g 0 (map_option (\<lambda>n. n - 1) mx) y k')"
    unfolding sh_cont_def
  proof (intro allI impI)
    fix y y'
    assume yy: "sh d y y'"
    have "pos y = pos x \<longleftrightarrow> pos y' = pos x'"
      using yy Suc.prems(1) by (simp add: sh_def)
    then show "rel_option (sh d)
        (if pos y = pos x then None else rep f m0 gs g 0 (map_option (\<lambda>n. n - 1) mx) y k)
        (if pos y' = pos x' then None else rep f m0 gs g 0 (map_option (\<lambda>n. n - 1) mx) y' k')"
      using Suc.IH [OF yy Suc.prems(2)] by simp
  qed
  have cl: "sh d (clear gs x) (clear gs x')"
    using Suc.prems(1) by (rule sh_clear)
  show ?case
    using kk body [OF cl c1] body [OF cl c2]
    by (auto intro!: rel_option_case)
qed

lemma sh_m:
  assumes "anchor_free r" and "sh d x x'" and "sh_cont d k k'"
  shows "rel_option (sh d) (m r x k) (m r x' k')"
  using assms
proof (induction r arbitrary: x x' k k')
  case Eps
  then show ?case by (simp add: sh_contD)
next
  case (Chr p)
  then show ?case by (simp add: sh_step)
next
  case (Seq a b)
  have "sh_cont d (\<lambda>y. m b y k) (\<lambda>y. m b y k')"
    unfolding sh_cont_def using Seq by simp
  with Seq show ?case by simp
next
  case (Alt a b)
  then show ?case by (auto intro!: rel_option_case)
next
  case (Rep g mn mx r)
  have len: "length (rest x') = length (rest x)"
    using Rep.prems(2) by (simp add: sh_def)
  show ?case
    unfolding m.simps len
    by (rule sh_rep) (use Rep in auto)
next
  case (Grp n r)
  have "sh_cont d (\<lambda>y. k (setcap n (take (pos y - pos x) (rest x)) y))
                  (\<lambda>y. k' (setcap n (take (pos y - pos x') (rest x')) y))"
    unfolding sh_cont_def
  proof (intro allI impI)
    fix y y'
    assume yy: "sh d y y'"
    have e: "take (pos y' - pos x') (rest x') = take (pos y - pos x) (rest x)"
      using yy Grp.prems(2) by (simp add: sh_def)
    show "rel_option (sh d) (k (setcap n (take (pos y - pos x) (rest x)) y))
            (k' (setcap n (take (pos y' - pos x') (rest x')) y'))"
      unfolding e using Grp.prems(3) yy by (intro sh_contD sh_setcap)
  qed
  with Grp show ?case by simp
next
  case (Bref n)
  have e: "caps x' = caps x" "rest x' = rest x"
    using Bref.prems(2) by (simp_all add: sh_def)
  show ?case
    using Bref.prems
    by (auto simp: e sh_contD sh_advance split: option.splits)
next
  case (Bol ml)
  then show ?case by simp
next
  case (Eol ml)
  have e: "rest x' = rest x"
    using Eol.prems(2) by (simp add: sh_def)
  show ?case
    using Eol.prems by (auto simp: e sh_contD split: list.splits)
next
  case (NotBehind p)
  then show ?case by simp
next
  case (NotAhead r)
  have "sh_cont d Some Some"
    by (simp add: sh_cont_def)
  with NotAhead have "rel_option (sh d) (m r x Some) (m r x' Some)"
    by simp
  then show ?case
    using NotAhead.prems by (cases "m r x Some"; cases "m r x' Some") (simp_all add: sh_contD)
qed

lemma match_at_shift:
  assumes "anchor_free r"
  shows "rel_option (sh i) (match_at r 0 None s) (match_at r i pv s)"
  unfolding match_at_def
  by (rule sh_m [OF assms]) (simp_all add: sh_def sh_cont_def)

lemma scan_shift:
  assumes "anchor_free r"
  shows "scan r f n i pv s = scan r f n 0 None s"
proof -
  have "scan r f n i pv s = scan r f n i' pv' s" for i i' pv pv'
  proof (induction s arbitrary: n i i' pv pv')
    case Nil
    have a: "rel_option (sh i) (match_at r 0 None []) (match_at r i pv [])"
      and b: "rel_option (sh i') (match_at r 0 None []) (match_at r i' pv' [])"
      using assms by (rule match_at_shift)+
    show ?case
      using a b
      by (cases "match_at r 0 None []"; cases "match_at r i pv []"; cases "match_at r i' pv' []")
         (auto simp: sh_def)
  next
    case (Cons c s)
    have a: "rel_option (sh i) (match_at r 0 None (c # s)) (match_at r i pv (c # s))"
      and b: "rel_option (sh i') (match_at r 0 None (c # s)) (match_at r i' pv' (c # s))"
      using assms by (rule match_at_shift)+
    show ?case
    proof (cases "match_at r 0 None (c # s)")
      case None
      with a b have "match_at r i pv (c # s) = None" "match_at r i' pv' (c # s) = None"
        by simp_all
      then show ?thesis
        using Cons.IH by auto
    next
      case (Some y0)
      with a b obtain y y' where y: "match_at r i pv (c # s) = Some y" "sh i y0 y"
        and y': "match_at r i' pv' (c # s) = Some y'" "sh i' y0 y'"
        by (auto simp: option_rel_Some1)
      then have e: "pos y - i = pos y' - i'" "caps y = caps y'" "pos y = i \<longleftrightarrow> pos y' = i'"
        by (auto simp: sh_def)
      show ?thesis
        using Cons.IH [of 0 "Suc i" "Some c" "Suc i'" "Some c"]
          Cons.IH [of "n - 1" "Suc i" "Some c" "Suc i'" "Some c"]
          Cons.IH [of "pos y' - i' - 1" "Suc i" "Some c" "Suc i'" "Some c"]
        by (simp add: y y' e)
    qed
  qed
  then show ?thesis .
qed

lemma clear_Nil [simp]: "clear [] x = x"
  by (cases x) simp

lemma ci_prefix_self [simp]: "ci_prefix u (u @ v)"
  by (induction u) simp_all

lemma flip_case_bracket [simp]: "flip_case (CHR ''['') = CHR ''[''"
  by (simp add: flip_case_def lowers_def uppers_def)

text \<open>A greedy run over the characters of a class takes them all when what follows matches there.\<close>

definition within :: "nat option \<Rightarrow> nat \<Rightarrow> bool" where
  "within mx n = (case mx of None \<Rightarrow> True | Some b \<Rightarrow> n \<le> b)"

lemma rep_greedy_run:
  assumes "list_all (cls_ok p) ds"
    and "s = [] \<or> \<not> cls_ok p (hd s)"
    and "mn \<le> length ds" and "within mx (length ds)"
    and "mn + length ds + length s < f"
    and "k (MState (i + length ds) (prev_after pv ds) s cs) = Some z"
  shows "rep f (step p) [] True mn mx (MState i pv (ds @ s) cs) k = Some z"
  using assms
proof (induction ds arbitrary: f i pv mn mx)
  case Nil
  then obtain f' where f: "f = Suc f'" by (cases f) auto
  from Nil.prems(2) have "step p (MState i pv s cs) k' = None" for k'
    by (cases s) simp_all
  with Nil.prems show ?case
    by (simp add: f)
next
  case (Cons d ds)
  then obtain f' where f: "f = Suc f'" by (cases f) auto
  from Cons.prems(4) have mx: "mx \<noteq> Some 0" and w: "within (map_option (\<lambda>n. n - 1) mx) (length ds)"
    by (auto simp: within_def split: option.splits)
  from Cons.prems(1) have d: "cls_ok p d" and ds: "list_all (cls_ok p) ds"
    by simp_all
  have "rep f' (step p) [] True (mn - 1) (map_option (\<lambda>n. n - 1) mx)
          (MState (Suc i) (Some d) (ds @ s) cs) k = Some z"
    using Cons.prems ds w by (intro Cons.IH) (auto simp: f)
  then show ?case
    using mx d by (cases "mn = 0") (simp_all add: f)
qed

lemma m_greedy_run:
  assumes "list_all (cls_ok p) ds"
    and "s = [] \<or> \<not> cls_ok p (hd s)"
    and "mn \<le> length ds" and "within mx (length ds)"
    and "k (MState (i + length ds) (prev_after pv ds) s cs) = Some z"
  shows "m (Rep True mn mx (Chr p)) (MState i pv (ds @ s) cs) k = Some z"
proof -
  have e: "m (Chr p) = step p"
    by (intro ext) simp
  have "rep (Suc (mn + length (ds @ s))) (step p) [] True mn mx (MState i pv (ds @ s) cs) k = Some z"
    using assms by (intro rep_greedy_run) auto
  then show ?thesis
    by (simp add: e del: rep.simps)
qed

lemma m_greedy_run_grp:
  assumes "list_all (cls_ok p) ds"
    and "s = [] \<or> \<not> cls_ok p (hd s)"
    and "mn \<le> length ds" and "within mx (length ds)"
    and "k (MState (i + length ds) (prev_after pv ds) s (cs(n \<mapsto> ds))) = Some z"
  shows "m (Grp n (Rep True mn mx (Chr p))) (MState i pv (ds @ s) cs) k = Some z"
proof -
  have "m (Rep True mn mx (Chr p)) (MState i pv (ds @ s) cs)
          (\<lambda>y. k (setcap n (take (pos y - i) (ds @ s)) y)) = Some z"
    using assms by (intro m_greedy_run) auto
  then show ?thesis
    by (simp del: m.simps(5))
qed

text \<open>A lazy body up to a closing literal that starts with a character the body does not have.\<close>

lemma m_lazy_close:
  assumes "b \<notin> set body" and "flip_case b = b"
  shows "m (Seq (Grp n lazy_any) (Seq (stri (b # clo)) Eps)) (MState i pv (body @ (b # clo) @ post) cs) Some =
           Some (MState (i + length body + Suc (length clo)) (prev_after pv (body @ b # clo)) post
                        (cs(n \<mapsto> body)))"
proof -
  let ?k = "\<lambda>y. m (Seq (stri (b # clo)) Eps) (setcap n (take (pos y - i) (body @ (b # clo) @ post)) y) Some"
  have miss: "?k (MState j pv' (c # s') cs) = None" if "c \<noteq> b" for j pv' c s'
    using that assms(2) by (simp add: stri_Cons)
  have hit: "?k (MState (i + length body) (prev_after pv body) ((b # clo) @ post) cs) =
      Some (MState (i + length body + Suc (length clo)) (prev_after pv (body @ b # clo)) post
                        (cs(n \<mapsto> body)))"
    by (simp add: m_stri)
  have "lazy_try ?k i pv (body @ (b # clo) @ post) cs =
      Some (MState (i + length body + Suc (length clo)) (prev_after pv (body @ b # clo)) post
                        (cs(n \<mapsto> body)))"
    by (rule lazy_try_first [where b = b, OF miss assms(1) hit])
  then show ?thesis
    by (simp add: m_lazy_any)
qed

subsection \<open>The other case of the characters of the patterns\<close>

lemma flip_case_values [simp]:
  "flip_case (CHR ''a'') = CHR ''A''" "flip_case (CHR ''b'') = CHR ''B''"
  "flip_case (CHR ''c'') = CHR ''C''" "flip_case (CHR ''d'') = CHR ''D''"
  "flip_case (CHR ''e'') = CHR ''E''" "flip_case (CHR ''f'') = CHR ''F''"
  "flip_case (CHR ''g'') = CHR ''G''" "flip_case (CHR ''h'') = CHR ''H''"
  "flip_case (CHR ''i'') = CHR ''I''" "flip_case (CHR ''j'') = CHR ''J''"
  "flip_case (CHR ''k'') = CHR ''K''" "flip_case (CHR ''l'') = CHR ''L''"
  "flip_case (CHR ''m'') = CHR ''M''" "flip_case (CHR ''n'') = CHR ''N''"
  "flip_case (CHR ''o'') = CHR ''O''" "flip_case (CHR ''p'') = CHR ''P''"
  "flip_case (CHR ''q'') = CHR ''Q''" "flip_case (CHR ''r'') = CHR ''R''"
  "flip_case (CHR ''s'') = CHR ''S''" "flip_case (CHR ''t'') = CHR ''T''"
  "flip_case (CHR ''u'') = CHR ''U''" "flip_case (CHR ''v'') = CHR ''V''"
  "flip_case (CHR ''w'') = CHR ''W''" "flip_case (CHR ''x'') = CHR ''X''"
  "flip_case (CHR ''y'') = CHR ''Y''" "flip_case (CHR ''z'') = CHR ''Z''"
  "flip_case (CHR ''A'') = CHR ''a''" "flip_case (CHR ''B'') = CHR ''b''"
  "flip_case (CHR ''C'') = CHR ''c''" "flip_case (CHR ''D'') = CHR ''d''"
  "flip_case (CHR ''E'') = CHR ''e''" "flip_case (CHR ''F'') = CHR ''f''"
  "flip_case (CHR ''G'') = CHR ''g''" "flip_case (CHR ''H'') = CHR ''h''"
  "flip_case (CHR ''I'') = CHR ''i''" "flip_case (CHR ''J'') = CHR ''j''"
  "flip_case (CHR ''K'') = CHR ''k''" "flip_case (CHR ''L'') = CHR ''l''"
  "flip_case (CHR ''M'') = CHR ''m''" "flip_case (CHR ''N'') = CHR ''n''"
  "flip_case (CHR ''O'') = CHR ''o''" "flip_case (CHR ''P'') = CHR ''p''"
  "flip_case (CHR ''Q'') = CHR ''q''" "flip_case (CHR ''R'') = CHR ''r''"
  "flip_case (CHR ''S'') = CHR ''s''" "flip_case (CHR ''T'') = CHR ''t''"
  "flip_case (CHR ''U'') = CHR ''u''" "flip_case (CHR ''V'') = CHR ''v''"
  "flip_case (CHR ''W'') = CHR ''w''" "flip_case (CHR ''X'') = CHR ''x''"
  "flip_case (CHR ''Y'') = CHR ''y''" "flip_case (CHR ''Z'') = CHR ''z''"
  "flip_case (CHR ''['') = CHR ''[''" "flip_case (CHR '']'') = CHR '']''"
  "flip_case (CHR ''/'') = CHR ''/''" "flip_case (CHR ''='') = CHR ''=''"
  "flip_case (CHR ''-'') = CHR ''-''" "flip_case (CHR ''*'') = CHR ''*''"
  "flip_case (CHR ''<'') = CHR ''<''" "flip_case (CHR ''>'') = CHR ''>''"
  "flip_case (CHR ''('') = CHR ''(''" "flip_case (CHR '')'') = CHR '')''"
  "flip_case (CHR ''!'') = CHR ''!''" "flip_case (CHR ''.'') = CHR ''.''"
  "flip_case (CHR ''@'') = CHR ''@''" "flip_case (CHR ''#'') = CHR ''#''"
  "flip_case (CHR ''_'') = CHR ''_''" "flip_case (CHR ''~'') = CHR ''~''"
  "flip_case (CHR '' '') = CHR '' ''" "flip_case (CHR ''0'') = CHR ''0''"
  "flip_case (CHR ''1'') = CHR ''1''" "flip_case (CHR ''2'') = CHR ''2''"
  "flip_case (CHR ''3'') = CHR ''3''" "flip_case (CHR ''4'') = CHR ''4''"
  "flip_case (CHR ''5'') = CHR ''5''" "flip_case (CHR ''6'') = CHR ''6''"
  "flip_case (CHR ''7'') = CHR ''7''" "flip_case (CHR ''8'') = CHR ''8''"
  "flip_case (CHR ''9'') = CHR ''9''"
  by (simp_all add: flip_case_def lowers_def uppers_def)

subsection \<open>What a match can reach\<close>

definition reach :: "mstate \<Rightarrow> mstate \<Rightarrow> bool" where
  "reach x y = (\<exists>n\<le>length (rest x). pos y = pos x + n \<and> rest y = drop n (rest x))"

lemma reach_refl [simp]: "reach x x"
  by (auto simp: reach_def intro: exI [of _ 0])

lemma reach_trans: "reach x y \<Longrightarrow> reach y z \<Longrightarrow> reach x z"
  unfolding reach_def
  by (elim exE conjE, rule_tac x = "n + na" in exI) (auto simp: add.commute)

lemma reach_clear [simp]: "reach (clear gs x) y = reach x y"
  by (cases x) (simp add: reach_def)

lemma reach_setcap [simp]: "reach x (setcap n s y) = reach x y"
  by (cases y) (simp add: reach_def)

lemma pos_clear [simp]: "pos (clear gs x) = pos x"
  by (cases x) simp

lemma rest_clear [simp]: "rest (clear gs x) = rest x"
  by (cases x) simp

lemma pos_advance: "pos (advance s x) = pos x + length s"
  by (induction s x rule: advance.induct) simp_all

lemma rest_advance: "rest (advance s x) = drop (length s) (rest x)"
  by (induction s x rule: advance.induct) (simp_all add: drop_Suc drop_tl)

lemma reach_advance: "length s \<le> length (rest x) \<Longrightarrow> reach x (advance s x)"
  by (auto simp: reach_def pos_advance rest_advance)

lemma reach_step:
  assumes "step p x k = Some z"
  shows "\<exists>y. reach x y \<and> k y = Some z"
proof -
  obtain i pv r cs where x: "x = MState i pv r cs" by (cases x)
  from assms obtain c r' where r: "r = c # r'" and k: "k (MState (Suc i) (Some c) r' cs) = Some z"
    by (cases r) (auto simp: x split: if_splits)
  have "reach x (MState (Suc i) (Some c) r' cs)"
    unfolding reach_def x r by (rule exI [of _ 1]) simp
  with k show ?thesis by blast
qed

lemma reach_rep:
  assumes body: "\<And>x k z. m0 x k = Some z \<Longrightarrow> \<exists>y. reach x y \<and> k y = Some z"
    and "rep f m0 gs g mn mx x k = Some z"
  shows "\<exists>y. reach x y \<and> k y = Some z"
  using assms(2)
proof (induction f arbitrary: x mn mx)
  case 0
  then show ?case by simp
next
  case (Suc f)
  let ?mx = "map_option (\<lambda>n. n - 1) mx"
  have via: "\<exists>y. reach x y \<and> k y = Some z"
    if "m0 (clear gs x) (\<lambda>y. if c y then None else rep f m0 gs g mn' ?mx y k) = Some z" for c mn'
  proof -
    from body [OF that] obtain y where y: "reach x y"
      and "(if c y then None else rep f m0 gs g mn' ?mx y k) = Some z"
      by auto
    then have "rep f m0 gs g mn' ?mx y k = Some z"
      by (auto split: if_splits)
    from Suc.IH [OF this] y show ?thesis
      by (blast intro: reach_trans)
  qed
  have via': "\<exists>y. reach x y \<and> k y = Some z"
    if "m0 (clear gs x) (\<lambda>y. rep f m0 gs g mn' ?mx y k) = Some z" for mn'
    using via [of "\<lambda>y. False" mn'] that by simp
  from Suc.prems show ?case
    by (auto split: if_splits option.splits intro: via via' exI [of _ x])
qed

lemma m_reach:
  "m r x k = Some z \<Longrightarrow> \<exists>y. reach x y \<and> k y = Some z"
proof (induction r arbitrary: x k z)
  case Eps
  then show ?case by (auto intro: exI [of _ x])
next
  case (Chr p)
  then show ?case by (simp add: reach_step)
next
  case (Seq a b)
  from Seq.prems have "m a x (\<lambda>y. m b y k) = Some z" by simp
  from Seq.IH(1) [OF this] obtain y1 where "reach x y1" "m b y1 k = Some z" by blast
  with Seq.IH(2) show ?case by (blast intro: reach_trans)
next
  case (Alt a b)
  then show ?case by (auto split: option.splits)
next
  case (Rep g mn mx r)
  from Rep.prems show ?case
    unfolding m.simps by (rule reach_rep [rotated]) (rule Rep.IH)
next
  case (Grp n r)
  from Grp.prems have "m r x (\<lambda>y. k (setcap n (take (pos y - pos x) (rest x)) y)) = Some z"
    by simp
  from Grp.IH [OF this] obtain y where "reach x y"
    "k (setcap n (take (pos y - pos x) (rest x)) y) = Some z" by blast
  then show ?case
    by (intro exI [of _ "setcap n (take (pos y - pos x) (rest x)) y"]) simp
next
  case (Bref n)
  show ?case
  proof (cases "caps x n")
    case None
    with Bref show ?thesis by (auto intro: exI [of _ x])
  next
    case (Some s)
    with Bref have t: "take (length s) (rest x) = s" and k: "k (advance s x) = Some z"
      by (auto split: if_splits)
    have "length (take (length s) (rest x)) \<le> length (rest x)"
      by simp
    with t have "length s \<le> length (rest x)"
      by simp
    with k show ?thesis
      by (blast intro: reach_advance)
  qed
next
  case (Bol ml)
  then show ?case by (auto split: option.splits if_splits intro: exI [of _ x])
next
  case (Eol ml)
  then show ?case by (auto split: list.splits if_splits intro: exI [of _ x])
next
  case (NotBehind p)
  then show ?case by (auto split: option.splits if_splits intro: exI [of _ x])
next
  case (NotAhead r)
  then show ?case by (auto split: option.splits intro: exI [of _ x])
qed

lemma match_at_bounds:
  assumes "match_at r i pv s = Some y"
  shows "i \<le> pos y \<and> pos y \<le> i + length s \<and> rest y = drop (pos y - i) s"
proof -
  from assms have "m r (MState i pv s Map.empty) Some = Some y"
    by (simp add: match_at_def)
  from m_reach [OF this] have "reach (MState i pv s Map.empty) y"
    by auto
  then show ?thesis
    by (auto simp: reach_def)
qed

text \<open>Replacing every match by itself changes nothing.\<close>

lemma scan_self:
  assumes "\<And>t cs. f t cs = t"
  shows "n \<le> length s \<Longrightarrow> scan r f n i pv s = drop n s"
proof (induction "length s" arbitrary: s n i pv rule: less_induct)
  case less
  show ?case
  proof (cases s)
    case Nil
    then show ?thesis
      using assms by (simp split: option.splits)
  next
    case (Cons c s')
    show ?thesis
    proof (cases "n = 0")
      case False
      then show ?thesis
        using less.prems less.hyps [of s' "n - 1"] by (simp add: Cons drop_Cons')
    next
      case True
      show ?thesis
      proof (cases "match_at r i pv (c # s')")
        case None
        then show ?thesis
          using less.hyps [of s' 0] by (simp add: Cons True)
      next
        case (Some y)
        from match_at_bounds [OF Some] have b: "i \<le> pos y" "pos y \<le> i + Suc (length s')"
          by simp_all
        show ?thesis
        proof (cases "pos y = i")
          case True
          then show ?thesis
            using less.hyps [of s' 0] Some assms by (simp add: Cons \<open>n = 0\<close>)
        next
          case False
          with b obtain d where d: "pos y - i = Suc d" "d \<le> length s'"
            by (cases "pos y - i") auto
          then show ?thesis
            using less.hyps [of s' d] Some assms False
            by (simp add: Cons \<open>n = 0\<close> take_Suc_Cons)
        qed
      qed
    qed
  qed
qed

lemma replace_g_self: "(\<And>t cs. f t cs = t) \<Longrightarrow> replace_g r f s = s"
  by (simp add: replace_g_def scan_self)

text \<open>Patterns every match of which passes a given character.\<close>

fun cls_only :: "char \<Rightarrow> cls \<Rightarrow> bool" where
  "cls_only b (Lit a) = (a = b)"
| "cls_only b (OneOf s) = list_all (\<lambda>a. a = b) s"
| "cls_only b p = False"

primrec needs :: "char \<Rightarrow> rx \<Rightarrow> bool" where
  "needs b Eps = False"
| "needs b (Chr p) = cls_only b p"
| "needs b (Seq x y) = (needs b x \<or> needs b y)"
| "needs b (Alt x y) = (needs b x \<and> needs b y)"
| "needs b (Rep g mn mx r) = (mn \<noteq> 0 \<and> mx \<noteq> Some 0 \<and> needs b r)"
| "needs b (Grp n r) = needs b r"
| "needs b (Bref n) = False"
| "needs b (Bol ml) = False"
| "needs b (Eol ml) = False"
| "needs b (NotBehind p) = False"
| "needs b (NotAhead r) = False"

lemma cls_only_ok: "cls_only b p \<Longrightarrow> cls_ok p c \<Longrightarrow> c = b"
  by (cases p) (auto simp: list_all_iff)

lemma needs_fail:
  "needs b r \<Longrightarrow> b \<notin> set (rest x) \<Longrightarrow> m r x k = None"
proof (induction r arbitrary: x k)
  case (Chr p)
  obtain i pv s cs where x: "x = MState i pv s cs" by (cases x)
  show ?case
  proof (cases s)
    case Nil
    then show ?thesis by (simp add: x)
  next
    case (Cons c s')
    with Chr x have "c \<noteq> b" by auto
    with Chr.prems(1) have "\<not> cls_ok p c"
      using cls_only_ok by auto
    then show ?thesis by (simp add: x Cons)
  qed
next
  case (Seq r1 r2)
  show ?case
  proof (cases "needs b r1")
    case True
    with Seq show ?thesis by simp
  next
    case False
    with Seq.prems have n2: "needs b r2" by simp
    show ?thesis
    proof (rule ccontr)
      assume "m (Seq r1 r2) x k \<noteq> None"
      then obtain z where "m r1 x (\<lambda>y. m r2 y k) = Some z" by auto
      from m_reach [OF this] obtain y where y: "reach x y" "m r2 y k = Some z" by blast
      from y(1) have "set (rest y) \<subseteq> set (rest x)"
        by (auto simp: reach_def dest: in_set_dropD)
      with Seq.prems(2) have "b \<notin> set (rest y)" by auto
      from Seq.IH(2) [OF n2 this] y(2) show False by simp
    qed
  qed
next
  case (Alt r1 r2)
  then show ?case by simp
next
  case (Rep g mn mx r)
  then show ?case by simp
next
  case (Grp n r)
  then show ?case by simp
qed simp_all

lemma needs_stri [simp]: "flip_case b = b \<Longrightarrow> needs b (stri (b # u))"
  by (simp add: stri_Cons)

text \<open>A property of what follows each occurrence of a character in a string.\<close>

fun all_after :: "char \<Rightarrow> (string \<Rightarrow> bool) \<Rightarrow> string \<Rightarrow> bool" where
  "all_after b P [] = True"
| "all_after b P (c # s) = ((if c = b then P s else True) \<and> all_after b P s)"

lemma all_after_none: "b \<notin> set s \<Longrightarrow> all_after b P s"
  by (induction s) auto

lemma all_after_append:
  "all_after b P (u @ v) = (all_after b (\<lambda>w. P (w @ v)) u \<and> all_after b P v)"
  by (induction u) auto

lemma all_after_mono:
  "all_after b P s \<Longrightarrow> (\<And>v. P v \<Longrightarrow> Q v) \<Longrightarrow> all_after b Q s"
  by (induction s) auto

subsection \<open>Where a pattern finds nothing\<close>

lemma search_none_scan:
  "search r i pv s = None \<Longrightarrow> scan r f 0 i pv s = s"
  by (induction s arbitrary: i pv) (auto split: option.splits)

lemma exec_none_replace: "exec r s = None \<Longrightarrow> replace_g r f s = s"
  by (simp add: exec_def replace_g_def search_none_scan)

lemma search_all_after:
  assumes miss: "\<And>j pv' c v. c \<noteq> b \<Longrightarrow> match_at r j pv' (c # v) = None"
    and nil: "\<And>j pv'. match_at r j pv' [] = None"
    and hit: "\<And>j pv' v. P v \<Longrightarrow> match_at r j pv' (b # v) = None"
    and "all_after b P s"
  shows "search r i pv s = None"
  using assms(4)
proof (induction s arbitrary: i pv)
  case Nil
  then show ?case by (simp add: nil)
next
  case (Cons c s)
  have "match_at r i pv (c # s) = None"
    using Cons.prems by (cases "c = b") (auto intro: miss hit)
  with Cons show ?case by simp
qed

text \<open>
  A pattern that opens with a literal \<open>b # u\<close> finds nothing in a text where, after each
  \<open>b\<close>, either \<open>u\<close> does not follow or the text has no further \<open>b\<close> that the rest of the
  pattern needs.
\<close>

definition dead_end :: "char \<Rightarrow> string \<Rightarrow> rx \<Rightarrow> string \<Rightarrow> bool" where
  "dead_end b u R v = (\<not> ci_prefix u v \<or> (needs b R \<and> b \<notin> set v))"

lemma open_literal_fails:
  assumes "flip_case b = b" and "c \<noteq> b \<or> dead_end b u R v"
  shows "m (Seq (stri (b # u)) R) (MState j pv (c # v) cs) k = None"
proof (cases "c = b \<and> ci_prefix u v")
  case False
  then show ?thesis
    using assms(1) by (auto simp: m_stri)
next
  case True
  with assms(2) have n: "needs b R" "b \<notin> set v"
    by (auto simp: dead_end_def)
  then have "b \<notin> set (drop (length u) v)"
    by (auto dest: in_set_dropD)
  with n(1) have "m R (MState (Suc (j + length u)) (prev_after (Some c) (take (length u) v))
                    (drop (length u) v) cs) k = None"
    by (intro needs_fail) simp_all
  then show ?thesis
    using True assms(1) by (simp add: m_stri)
qed

lemma open_literal_search:
  assumes "flip_case b = b" and "all_after b (dead_end b u R) s"
  shows "search (Seq (stri (b # u)) R) i pv s = None"
proof (rule search_all_after [where b = b and P = "dead_end b u R"])
  show "match_at (Seq (stri (b # u)) R) j pv' (c # v) = None" if "c \<noteq> b" for j pv' c v
    unfolding match_at_def using assms(1) that by (intro open_literal_fails) auto
  show "match_at (Seq (stri (b # u)) R) j pv' [] = None" for j pv'
    by (simp add: match_at_def m_stri)
  show "match_at (Seq (stri (b # u)) R) j pv' (b # v) = None" if "dead_end b u R v" for j pv' v
    unfolding match_at_def using assms(1) that by (intro open_literal_fails) auto
  show "all_after b (dead_end b u R) s"
    by (rule assms(2))
qed

lemma open_literal_pass:
  assumes "flip_case b = b" and "all_after b (dead_end b u R) s"
  shows "replace_g (Seq (stri (b # u)) R) f s = s"
  by (rule exec_none_replace) (simp add: exec_def open_literal_search [OF assms])

subsection \<open>Passes that leave a text alone\<close>

text \<open>After each \<open>[\<close> of the text, either \<open>u\<close> does not follow or there is no later \<open>[\<close>.\<close>

definition no_tag :: "string \<Rightarrow> string \<Rightarrow> bool" where
  "no_tag u s = all_after (CHR ''['') (\<lambda>v. \<not> ci_prefix u v \<or> CHR ''['' \<notin> set v) s"

lemma no_tag_none: "CHR ''['' \<notin> set s \<Longrightarrow> no_tag u s"
  by (simp add: no_tag_def all_after_none)

lemma no_tag_pass:
  assumes "needs (CHR ''['') R" and "no_tag u s"
  shows "replace_g (Seq (stri (CHR ''['' # u)) R) f s = s"
proof (rule open_literal_pass)
  show "flip_case (CHR ''['') = CHR ''[''" by simp
  show "all_after (CHR ''['') (dead_end (CHR ''['') u R) s"
    using assms(2) unfolding no_tag_def
    by (rule all_after_mono) (auto simp: dead_end_def assms(1))
qed

lemma re_tag_pass:
  assumes "no_tag u s"
  shows "replace_g (re_tag (CHR ''['' # u) (CHR ''['' # w)) f s = s"
  unfolding re_tag_def seqs_Cons seqs_Nil
  by (rule no_tag_pass [OF _ assms]) simp

lemma bgg_code_id: "no_tag ''code]'' s \<Longrightarrow> bgg_code s = s"
  unfolding bgg_code_def by (rule re_tag_pass)

lemma bgg_tt_id: "no_tag ''tt]'' s \<Longrightarrow> bgg_tt s = s"
  unfolding bgg_tt_def by (rule re_tag_pass)

lemma bgg_b_id: "no_tag ''b]'' s \<Longrightarrow> bgg_b s = s"
  unfolding bgg_b_def by (rule re_tag_pass)

lemma bgg_i_id: "no_tag ''i]'' s \<Longrightarrow> bgg_i s = s"
  unfolding bgg_i_def by (rule re_tag_pass)

lemma bgg_u_id: "no_tag ''u]'' s \<Longrightarrow> bgg_u s = s"
  unfolding bgg_u_def by (rule re_tag_pass)

lemma bgg_s_id: "no_tag ''s]'' s \<Longrightarrow> bgg_s s = s"
  unfolding bgg_s_def by (rule re_tag_pass)

lemma bgg_strike_id: "no_tag ''-]'' s \<Longrightarrow> bgg_strike s = s"
  unfolding bgg_strike_def by (rule re_tag_pass)

lemma bgg_url_id: "no_tag ''url='' s \<Longrightarrow> bgg_url s = s"
  unfolding bgg_url_def re_url_def seqs_Cons seqs_Nil
  by (rule no_tag_pass) simp_all

lemma bgg_img_id: "no_tag ''img]'' s \<Longrightarrow> bgg_img s = s"
  unfolding bgg_img_def by (rule re_tag_pass)

lemma bgg_thing_id: "no_tag ''thing='' s \<Longrightarrow> bgg_thing s = s"
  unfolding bgg_thing_def re_thing_def seqs_Cons seqs_Nil
  by (rule no_tag_pass) simp_all

lemma bgg_user_id: "no_tag ''user='' s \<Longrightarrow> bgg_user s = s"
  unfolding bgg_user_def re_user_def seqs_Cons seqs_Nil
  by (rule no_tag_pass) simp_all

lemma bgg_quote_id: "no_tag ''quote]'' s \<Longrightarrow> bgg_quote s = s"
  unfolding bgg_quote_def by (rule re_tag_pass)

lemma bgg_list_id: "no_tag ''list]'' s \<Longrightarrow> bgg_list s = s"
  unfolding bgg_list_def by (rule re_tag_pass)

lemma bgg_olist_id: "no_tag ''olist]'' s \<Longrightarrow> bgg_olist s = s"
  unfolding bgg_olist_def by (rule re_tag_pass)

lemma bgg_size_id: "no_tag ''size='' s \<Longrightarrow> bgg_size s = s"
  unfolding bgg_size_def re_size_def seqs_Cons seqs_Nil
  by (rule no_tag_pass) simp_all

text \<open>The line-break tag has no closing tag: it is enough that \<open>br\<close> follows no \<open>[\<close>.\<close>

definition no_br :: "string \<Rightarrow> bool" where
  "no_br s = all_after (CHR ''['') (\<lambda>v. \<not> ci_prefix ''br'' v) s"


lemma bgg_br_id: "no_br s \<Longrightarrow> bgg_br s = s"
  unfolding bgg_br_def re_br_def seqs_Cons seqs_Nil no_br_def
  by (rule open_literal_pass, simp) (erule all_after_mono, simp add: dead_end_def)

text \<open>The protector and the restorer on a text without a code tag.\<close>

lemma search_stri:
  assumes "flip_case b = b" and "all_after b (\<lambda>v. \<not> ci_prefix u v) s"
  shows "search (stri (b # u)) i pv s = None"
proof (rule search_all_after [where b = b and P = "\<lambda>v. \<not> ci_prefix u v"])
  show "all_after b (\<lambda>v. \<not> ci_prefix u v) s" by (rule assms(2))
qed (use assms(1) in \<open>auto simp: match_at_def m_stri\<close>)

lemma restore_empty: "restore Map.empty s = s"
  unfolding restore_def by (rule replace_g_self) (simp add: restore_token_def)

lemma bggToMarkdown_unprotected:
  assumes "s \<noteq> []" and "all_after (CHR ''['') (\<lambda>v. \<not> ci_prefix ''code]'' v) s"
  shows "bggToMarkdown s = Some (run_passes bgg_passes s)"
proof -
  have "exec (stri ''[code]'') s = None"
    unfolding exec_def by (rule search_stri) (use assms(2) in simp_all)
  then have "protect_loop ''CODE_BGG'' (stri ''[code]'') (Some (stri ''[/code]'')) s Map.empty 0 =
      Some (s, Map.empty, 0)"
    by (subst protect_loop.simps) simp
  then show ?thesis
    using assms(1) by (simp add: bggToMarkdown_def protectSegments_def bgg_pairs_def restore_empty)
qed

section \<open>Passes as walks over the text\<close>

text \<open>
  Tags read directly from the text, without the matcher. \<open>find_close\<close> is the text before
  the first closing tag; \<open>arg_tag\<close> reads an opening tag with a numeric argument (the
  longest run of digits, of at most \<open>mx\<close> digits), \<open>]\<close>, and the body up to the first
  closing tag; \<open>plain_tag\<close> reads an opening tag without argument and the body.
\<close>

fun find_close :: "string \<Rightarrow> string \<Rightarrow> string option" where
  "find_close clo [] = (if ci_prefix clo [] then Some [] else None)"
| "find_close clo (c # s) =
     (if ci_prefix clo (c # s) then Some [] else map_option ((#) c) (find_close clo s))"

definition arg_tag :: "string \<Rightarrow> nat option \<Rightarrow> string \<Rightarrow> string \<Rightarrow> (string \<times> string) option" where
  "arg_tag opn mx clo v =
     (if ci_prefix opn v then
        (let r = drop (length opn) v; ds = takeWhile (\<lambda>c. c \<in> set digits) r
         in if ds \<noteq> [] \<and> within mx (length ds) \<and>
               take 1 (dropWhile (\<lambda>c. c \<in> set digits) r) = '']''
            then map_option (Pair ds) (find_close clo (drop (Suc (length ds)) r))
            else None)
      else None)"


text \<open>
  A walk over the text that replaces what \<open>P\<close> reads: where \<open>P\<close> reads a tag of \<open>n\<close>
  characters with replacement \<open>out\<close>, \<open>out\<close> is emitted and the walk resumes after the tag;
  every other character is copied.
\<close>

primrec walk :: "(string \<Rightarrow> (nat \<times> string) option) \<Rightarrow> nat \<Rightarrow> string \<Rightarrow> string" where
  "walk P skip [] = []"
| "walk P skip (c # s) =
     (if skip \<noteq> 0 then walk P (skip - 1) s
      else (case P (c # s) of
              None \<Rightarrow> c # walk P 0 s
            | Some (n, out) \<Rightarrow> out @ walk P (n - 1) s))"

lemma scan_walk:
  assumes none: "\<And>i pv v. P v = None \<Longrightarrow> match_at r i pv v = None"
    and some: "\<And>i pv v n out. P v = Some (n, out) \<Longrightarrow>
                 \<exists>y. match_at r i pv v = Some y \<and> pos y = i + n \<and> n \<noteq> 0 \<and>
                     f (take n v) (caps y) = out"
    and nil: "P [] = None"
  shows "scan r f skip i pv s = walk P skip s"
proof (induction s arbitrary: skip i pv)
  case Nil
  then show ?case by (simp add: none [OF nil])
next
  case (Cons c s)
  show ?case
  proof (cases "skip = 0")
    case False
    then show ?thesis by (simp add: Cons.IH)
  next
    case True
    show ?thesis
    proof (cases "P (c # s)")
      case None
      then show ?thesis
        by (simp add: True none Cons.IH)
    next
      case (Some a)
      obtain n out where a: "a = (n, out)" by (cases a)
      from some [OF Some [unfolded a], of i pv] obtain y
        where y: "match_at r i pv (c # s) = Some y" "pos y = i + n" "n \<noteq> 0"
          "f (take n (c # s)) (caps y) = out"
        by blast
      then show ?thesis
        by (simp add: True Some a Cons.IH)
    qed
  qed
qed

lemma replace_g_walk:
  assumes "\<And>i pv v. P v = None \<Longrightarrow> match_at r i pv v = None"
    and "\<And>i pv v n out. P v = Some (n, out) \<Longrightarrow>
                 \<exists>y. match_at r i pv v = Some y \<and> pos y = i + n \<and> n \<noteq> 0 \<and>
                     f (take n v) (caps y) = out"
    and "P [] = None"
  shows "replace_g r f s = walk P 0 s"
  unfolding replace_g_def using assms by (rule scan_walk)

text \<open>A greedy run of a class, when what follows cannot start with a character of the class.\<close>

definition below :: "nat \<Rightarrow> nat option \<Rightarrow> bool" where
  "below mn mx = (case mx of None \<Rightarrow> True | Some b \<Rightarrow> mn \<le> b)"

lemma rep_greedy_exact:
  assumes K_fail: "\<And>j pv' c v. cls_ok p c \<Longrightarrow> K (MState j pv' (c # v) cs) = None"
  shows "below mn mx \<Longrightarrow> mn + length s < f \<Longrightarrow>
         rep f (step p) [] True mn mx (MState i pv s cs) K =
           (if mn \<le> length (takeWhile (cls_ok p) s) \<and> within mx (length (takeWhile (cls_ok p) s))
            then K (MState (i + length (takeWhile (cls_ok p) s)) (prev_after pv (takeWhile (cls_ok p) s))
                      (dropWhile (cls_ok p) s) cs)
            else None)"
proof (induction s arbitrary: f i pv mn mx)
  case Nil
  then obtain f' where f: "f = Suc f'" by (cases f) auto
  from Nil.prems(1) show ?case
    by (cases mx) (auto simp: f below_def within_def)
next
  case (Cons c s)
  then obtain f' where f: "f = Suc f'" by (cases f) auto
  let ?mx = "map_option (\<lambda>n. n - 1) mx"
  show ?case
  proof (cases "cls_ok p c")
    case False
    with Cons.prems(1) show ?thesis
      by (cases mx) (auto simp: f below_def within_def)
  next
    case True
    have kx: "K (MState i pv (c # s) cs) = None"
      using True by (rule K_fail)
    show ?thesis
    proof (cases "mx = Some 0")
      case True
      with \<open>cls_ok p c\<close> kx show ?thesis
        by (simp add: f within_def)
    next
      case False
      have b: "below (mn - 1) ?mx"
        using Cons.prems(1) False by (cases mx) (auto simp: below_def)
      have l: "(mn - 1) + length s < f'"
        using Cons.prems(2) by (simp add: f)
      have w: "within mx (Suc n) = within ?mx n" for n
        using False by (cases mx) (auto simp: within_def)
      have ih: "rep f' (step p) [] True (mn - 1) ?mx (MState (Suc i) (Some c) s cs) K =
           (if mn - 1 \<le> length (takeWhile (cls_ok p) s) \<and> within ?mx (length (takeWhile (cls_ok p) s))
            then K (MState (Suc i + length (takeWhile (cls_ok p) s))
                      (prev_after (Some c) (takeWhile (cls_ok p) s)) (dropWhile (cls_ok p) s) cs)
            else None)"
        by (rule Cons.IH [OF b l])
      show ?thesis
      proof (cases "mn = 0")
        case True
        then show ?thesis
          using ih \<open>cls_ok p c\<close> False kx by (simp add: f w split: option.splits)
      next
        case False
        then have e: "mn - Suc 0 \<le> n \<longleftrightarrow> mn \<le> Suc n" for n
          by auto
        have "rep f (step p) [] True mn mx (MState i pv (c # s) cs) K =
              rep f' (step p) [] True (mn - 1) ?mx (MState (Suc i) (Some c) s cs) K"
          using \<open>cls_ok p c\<close> \<open>mx \<noteq> Some 0\<close> False by (simp add: f)
        also note ih
        finally show ?thesis
          using \<open>cls_ok p c\<close> by (simp add: w e)
      qed
    qed
  qed
qed

lemma m_greedy_exact:
  assumes "\<And>j pv' c v. cls_ok p c \<Longrightarrow> K (MState j pv' (c # v) cs) = None"
    and "below mn mx"
  shows "m (Rep True mn mx (Chr p)) (MState i pv s cs) K =
           (if mn \<le> length (takeWhile (cls_ok p) s) \<and> within mx (length (takeWhile (cls_ok p) s))
            then K (MState (i + length (takeWhile (cls_ok p) s)) (prev_after pv (takeWhile (cls_ok p) s))
                      (dropWhile (cls_ok p) s) cs)
            else None)"
proof -
  have e: "m (Chr p) = step p"
    by (intro ext) simp
  have "rep (Suc (mn + length s)) (step p) [] True mn mx (MState i pv s cs) K =
           (if mn \<le> length (takeWhile (cls_ok p) s) \<and> within mx (length (takeWhile (cls_ok p) s))
            then K (MState (i + length (takeWhile (cls_ok p) s)) (prev_after pv (takeWhile (cls_ok p) s))
                      (dropWhile (cls_ok p) s) cs)
            else None)"
    using assms by (intro rep_greedy_exact) simp_all
  then show ?thesis
    by (simp add: e del: rep.simps)
qed

text \<open>A lazy body before a closing literal stops at the first place where the literal stands.\<close>

lemma find_close_Some:
  "find_close clo s = Some body \<Longrightarrow> take (length body) s = body \<and> ci_prefix clo (drop (length body) s)"
proof (induction s arbitrary: body)
  case Nil
  then show ?case by (simp split: if_splits)
next
  case (Cons c s)
  show ?case
  proof (cases "ci_prefix clo (c # s)")
    case True
    with Cons.prems show ?thesis by simp
  next
    case False
    with Cons.prems obtain b' where b: "find_close clo s = Some b'" "body = c # b'"
      by auto
    from Cons.IH [OF b(1)] show ?thesis
      by (simp add: b(2))
  qed
qed

lemma lazy_try_find:
  assumes miss: "\<And>j pv' v. \<not> ci_prefix clo v \<Longrightarrow> k (MState j pv' v cs) = None"
    and hit: "\<And>j pv' v. ci_prefix clo v \<Longrightarrow> k (MState j pv' v cs) \<noteq> None"
  shows "lazy_try k i pv s cs =
           (case find_close clo s of
              None \<Rightarrow> None
            | Some body \<Rightarrow> k (MState (i + length body) (prev_after pv body) (drop (length body) s) cs))"
proof (induction s arbitrary: i pv)
  case Nil
  then show ?case by (simp add: miss)
next
  case (Cons c s)
  show ?case
  proof (cases "ci_prefix clo (c # s)")
    case True
    from hit [OF True, of i pv] obtain z where "k (MState i pv (c # s) cs) = Some z"
      by auto
    with True show ?thesis by simp
  next
    case False
    from miss [OF False, of i pv] have "k (MState i pv (c # s) cs) = None" .
    with False show ?thesis
      by (simp add: Cons.IH split: option.splits)
  qed
qed

lemma ci_prefix_close: "ci_prefix '']'' s = (take 1 s = '']'')"
  by (cases s) auto

lemma digit_not_close: "cls_ok Digit c \<Longrightarrow> \<not> ci_prefix '']'' (c # v)"
proof
  assume "cls_ok Digit c" and "ci_prefix '']'' (c # v)"
  then have "CHR '']'' \<in> set digits"
    by simp
  then show False
    by (simp add: digits_def)
qed

lemma m_lazy_close_exact:
  "m (Seq (Grp n lazy_any) (Seq (stri clo) Eps)) (MState i pv s cs) Some =
     (case find_close clo s of
        None \<Rightarrow> None
      | Some body \<Rightarrow>
          Some (MState (i + length body + length clo)
                  (prev_after (prev_after pv body) (take (length clo) (drop (length body) s)))
                  (drop (length clo) (drop (length body) s)) (cs(n \<mapsto> body))))"
proof -
  let ?k = "\<lambda>y. m (Seq (stri clo) Eps) (setcap n (take (pos y - i) s) y) Some"
  have miss: "?k (MState j pv' v cs) = None" if "\<not> ci_prefix clo v" for j pv' v
    using that by (simp add: m_stri)
  have hit: "?k (MState j pv' v cs) \<noteq> None" if "ci_prefix clo v" for j pv' v
    using that by (simp add: m_stri)
  have "m (Seq (Grp n lazy_any) (Seq (stri clo) Eps)) (MState i pv s cs) Some = lazy_try ?k i pv s cs"
    by (simp add: m_lazy_any)
  also have "\<dots> = (case find_close clo s of
                     None \<Rightarrow> None
                   | Some body \<Rightarrow> ?k (MState (i + length body) (prev_after pv body) (drop (length body) s) cs))"
    by (rule lazy_try_find [where clo = clo and k = "?k", OF miss hit])
  also have "\<dots> = (case find_close clo s of
        None \<Rightarrow> None
      | Some body \<Rightarrow>
          Some (MState (i + length body + length clo)
                  (prev_after (prev_after pv body) (take (length clo) (drop (length body) s)))
                  (drop (length clo) (drop (length body) s)) (cs(n \<mapsto> body))))"
    by (auto simp: m_stri dest: find_close_Some split: option.splits)
  finally show ?thesis .
qed

lemma close_tail:
  "m (Seq (stri '']'') (Seq (Grp n lazy_any) (Seq (stri clo) Eps))) (MState j pv r cs) Some =
     (if take 1 r = '']'' then
        (case find_close clo (drop 1 r) of
           None \<Rightarrow> None
         | Some body \<Rightarrow>
             Some (MState (j + 1 + length body + length clo)
                     (prev_after (prev_after (prev_after pv (take 1 r)) body)
                        (take (length clo) (drop (length body) (drop 1 r))))
                     (drop (length clo) (drop (length body) (drop 1 r))) (cs(n \<mapsto> body))))
      else None)"
proof -
  have "m (Seq (stri '']'') (Seq (Grp n lazy_any) (Seq (stri clo) Eps))) (MState j pv r cs) Some =
        (if take 1 r = '']''
         then m (Seq (Grp n lazy_any) (Seq (stri clo) Eps))
                (MState (j + 1) (prev_after pv (take 1 r)) (drop 1 r) cs) Some
         else None)"
    using m_stri [of "'']''" j pv r cs "\<lambda>y. m (Seq (Grp n lazy_any) (Seq (stri clo) Eps)) y Some"]
    by (simp add: ci_prefix_close del: m.simps(5,6))
  then show ?thesis
    by (simp only: m_lazy_close_exact)
qed

lemma close_tail_digit:
  "cls_ok Digit c \<Longrightarrow>
   m (Seq (stri '']'') X) (MState j pv (c # w) cs) k = None"
  using m_stri [of "'']''" j pv "c # w" cs "\<lambda>y. m X y k"] digit_not_close [of c w]
  by (simp del: m.simps(5,6) ci_prefix.simps)

lemma digits_grp_exact:
  assumes "below 1 mx"
  shows "m (Grp g (Rep True 1 mx (Chr Digit))) (MState j pv r Map.empty)
           (\<lambda>y. m (Seq (stri '']'') X) y Some) =
         (if takeWhile (cls_ok Digit) r \<noteq> [] \<and> within mx (length (takeWhile (cls_ok Digit) r))
          then m (Seq (stri '']'') X)
                 (MState (j + length (takeWhile (cls_ok Digit) r))
                    (prev_after pv (takeWhile (cls_ok Digit) r))
                    (dropWhile (cls_ok Digit) r) [g \<mapsto> takeWhile (cls_ok Digit) r]) Some
          else None)"
proof -
  let ?K = "\<lambda>y. m (Seq (stri '']'') X) (setcap g (take (pos y - j) r) y) Some"
  have f: "?K (MState j' pv' (c # w) Map.empty) = None" if "cls_ok Digit c" for j' pv' c w
    using that by (simp add: close_tail_digit del: m.simps)
  have t: "take (length (takeWhile (cls_ok Digit) r)) r = takeWhile (cls_ok Digit) r"
    by (rule takeWhile_eq_take [symmetric])
  have "m (Grp g (Rep True 1 mx (Chr Digit))) (MState j pv r Map.empty)
           (\<lambda>y. m (Seq (stri '']'') X) y Some) =
        m (Rep True 1 mx (Chr Digit)) (MState j pv r Map.empty) ?K"
    by (simp del: m.simps(3,5))
  also have "\<dots> =
      (if 1 \<le> length (takeWhile (cls_ok Digit) r) \<and> within mx (length (takeWhile (cls_ok Digit) r))
       then ?K (MState (j + length (takeWhile (cls_ok Digit) r))
                  (prev_after pv (takeWhile (cls_ok Digit) r)) (dropWhile (cls_ok Digit) r) Map.empty)
       else None)"
    by (rule m_greedy_exact [where K = "?K", OF f assms])
  also have "\<dots> =
      (if takeWhile (cls_ok Digit) r \<noteq> [] \<and> within mx (length (takeWhile (cls_ok Digit) r))
          then m (Seq (stri '']'') X)
                 (MState (j + length (takeWhile (cls_ok Digit) r))
                    (prev_after pv (takeWhile (cls_ok Digit) r))
                    (dropWhile (cls_ok Digit) r) [g \<mapsto> takeWhile (cls_ok Digit) r]) Some
          else None)"
    by (simp add: t Suc_le_eq del: m.simps)
  finally show ?thesis .
qed

lemma digits_exact:
  assumes "below 1 mx"
  shows "m (Rep True 1 mx (Chr Digit)) (MState j pv r Map.empty)
           (\<lambda>y. m (Seq (stri '']'') X) y Some) =
         (if takeWhile (cls_ok Digit) r \<noteq> [] \<and> within mx (length (takeWhile (cls_ok Digit) r))
          then m (Seq (stri '']'') X)
                 (MState (j + length (takeWhile (cls_ok Digit) r))
                    (prev_after pv (takeWhile (cls_ok Digit) r))
                    (dropWhile (cls_ok Digit) r) Map.empty) Some
          else None)"
proof -
  let ?K = "\<lambda>y. m (Seq (stri '']'') X) y Some"
  have f: "?K (MState j' pv' (c # w) Map.empty) = None" if "cls_ok Digit c" for j' pv' c w
    using that by (simp add: close_tail_digit del: m.simps)
  have "m (Rep True 1 mx (Chr Digit)) (MState j pv r Map.empty) ?K =
      (if 1 \<le> length (takeWhile (cls_ok Digit) r) \<and> within mx (length (takeWhile (cls_ok Digit) r))
       then ?K (MState (j + length (takeWhile (cls_ok Digit) r))
                  (prev_after pv (takeWhile (cls_ok Digit) r)) (dropWhile (cls_ok Digit) r) Map.empty)
       else None)"
    by (rule m_greedy_exact [where K = "?K", OF f assms])
  then show ?thesis
    by (simp add: Suc_le_eq del: m.simps)
qed

lemma cls_digit: "cls_ok Digit = (\<lambda>c. c \<in> set digits)"
  by (intro ext) simp

lemma drop_after_run: "drop (Suc 0) (dropWhile P r) = drop (Suc (length (takeWhile P r))) r"
  by (simp add: dropWhile_eq_drop)

lemma arg_tag_grp_match:
  assumes "below 1 mx"
  shows "map_option (\<lambda>y. (pos y, caps y))
           (match_at (seqs [stri opn, Grp 1 (Rep True 1 mx (Chr Digit)), stri '']'', Grp 2 lazy_any,
                            stri clo]) i pv v) =
         map_option (\<lambda>(ds, body). (i + (length opn + length ds + 1 + length body + length clo),
                                    [1 \<mapsto> ds, 2 \<mapsto> body]))
           (arg_tag opn mx clo v)"
proof (cases "ci_prefix opn v")
  case False
  have "match_at (seqs [stri opn, Grp 1 (Rep True 1 mx (Chr Digit)), stri '']'', Grp 2 lazy_any,
                            stri clo]) i pv v = None"
    unfolding match_at_def seqs_Cons seqs_Nil
    by (subst m.simps(3), subst m_stri) (simp only: False if_False)
  then show ?thesis
    by (simp add: arg_tag_def False)
next
  case True
  have "match_at (seqs [stri opn, Grp 1 (Rep True 1 mx (Chr Digit)), stri '']'', Grp 2 lazy_any,
                            stri clo]) i pv v =
        m (Grp 1 (Rep True 1 mx (Chr Digit)))
          (MState (i + length opn) (prev_after pv (take (length opn) v)) (drop (length opn) v) Map.empty)
          (\<lambda>y. m (Seq (stri '']'') (Seq (Grp 2 lazy_any) (Seq (stri clo) Eps))) y Some)"
    unfolding match_at_def seqs_Cons seqs_Nil
    by (subst m.simps(3), subst m_stri, simp only: True if_True, subst m.simps(3)) (rule refl)
  then show ?thesis
    unfolding digits_grp_exact [OF assms] close_tail cls_digit arg_tag_def
    by (simp add: True drop_after_run Let_def split: option.splits cong: if_cong)
qed

lemma arg_tag_match:
  assumes "below 1 mx"
  shows "map_option (\<lambda>y. (pos y, caps y))
           (match_at (seqs [stri opn, Rep True 1 mx (Chr Digit), stri '']'', Grp 1 lazy_any,
                            stri clo]) i pv v) =
         map_option (\<lambda>(ds, body). (i + (length opn + length ds + 1 + length body + length clo),
                                    [1 \<mapsto> body]))
           (arg_tag opn mx clo v)"
proof (cases "ci_prefix opn v")
  case False
  have "match_at (seqs [stri opn, Rep True 1 mx (Chr Digit), stri '']'', Grp 1 lazy_any,
                            stri clo]) i pv v = None"
    unfolding match_at_def seqs_Cons seqs_Nil
    by (subst m.simps(3), subst m_stri) (simp only: False if_False)
  then show ?thesis
    by (simp add: arg_tag_def False)
next
  case True
  have "match_at (seqs [stri opn, Rep True 1 mx (Chr Digit), stri '']'', Grp 1 lazy_any,
                            stri clo]) i pv v =
        m (Rep True 1 mx (Chr Digit))
          (MState (i + length opn) (prev_after pv (take (length opn) v)) (drop (length opn) v) Map.empty)
          (\<lambda>y. m (Seq (stri '']'') (Seq (Grp 1 lazy_any) (Seq (stri clo) Eps))) y Some)"
    unfolding match_at_def seqs_Cons seqs_Nil
    by (subst m.simps(3), subst m_stri, simp only: True if_True, subst m.simps(3)) (rule refl)
  then show ?thesis
    unfolding digits_exact [OF assms] close_tail cls_digit arg_tag_def
    by (simp add: True drop_after_run Let_def split: option.splits cong: if_cong)
qed


text \<open>A pass whose pattern reads exactly what \<open>T\<close> reads is the walk over \<open>T\<close>.\<close>

lemma replace_g_walk_tag:
  assumes eq: "\<And>i pv v. map_option (\<lambda>y. (pos y, caps y)) (match_at r i pv v) =
                          map_option (\<lambda>a. (i + len a, cap a)) (T v)"
    and len: "\<And>v a. T v = Some a \<Longrightarrow> len a \<noteq> 0"
    and nil: "T [] = None"
    and f: "\<And>t v a. T v = Some a \<Longrightarrow> f t (cap a) = f' a"
  shows "replace_g r f s = walk (\<lambda>v. map_option (\<lambda>a. (len a, f' a)) (T v)) 0 s"
proof (rule replace_g_walk)
  fix i pv v
  assume "map_option (\<lambda>a. (len a, f' a)) (T v) = None"
  then have "T v = None" by simp
  with eq [of i pv v] show "match_at r i pv v = None" by simp
next
  fix i pv v n out
  assume "map_option (\<lambda>a. (len a, f' a)) (T v) = Some (n, out)"
  then obtain a where a: "T v = Some a" "n = len a" "out = f' a"
    by auto
  with eq [of i pv v] obtain y where "match_at r i pv v = Some y" "pos y = i + len a" "caps y = cap a"
    by auto
  with a len [OF a(1)] f [OF a(1)]
  show "\<exists>y. match_at r i pv v = Some y \<and> pos y = i + n \<and> n \<noteq> 0 \<and> f (take n v) (caps y) = out"
    by simp
next
  show "map_option (\<lambda>a. (len a, f' a)) (T []) = None"
    by (simp add: nil)
qed

lemma walk_free:
  assumes "\<And>c v. c \<noteq> b \<Longrightarrow> P (c # v) = None"
    and "b \<notin> set s"
  shows "walk P 0 s = s"
  using assms(2)
proof (induction s)
  case Nil
  then show ?case by simp
next
  case (Cons a s)
  then have "P (a # s) = None"
    by (intro assms(1)) auto
  with Cons show ?case by simp
qed

lemma walk_pre:
  assumes "\<And>c v. c \<noteq> b \<Longrightarrow> P (c # v) = None"
    and "b \<notin> set pre"
  shows "walk P 0 (pre @ s) = pre @ walk P 0 s"
  using assms(2)
proof (induction pre)
  case Nil
  then show ?case by simp
next
  case (Cons a pre)
  then have "P (a # pre @ s) = None"
    by (intro assms(1)) auto
  with Cons show ?case by simp
qed

text \<open>The line-break tag read directly: \<open>[br\<close>, white space, at most one \<open>/\<close>, then \<open>]\<close>.\<close>

definition br_tag :: "string \<Rightarrow> nat option" where
  "br_tag v =
     (if ci_prefix ''[br'' v then
        (let ws = takeWhile is_ws (drop 3 v); r = dropWhile is_ws (drop 3 v);
             sl = takeWhile (\<lambda>c. c = CHR ''/'') r
         in if length sl \<le> 1 \<and> take 1 (dropWhile (\<lambda>c. c = CHR ''/'') r) = '']''
            then Some (3 + length ws + length sl + 1)
            else None)
      else None)"

lemma cls_space: "cls_ok Space = is_ws"
  by (intro ext) simp

lemma cls_lit: "cls_ok (Lit a) = (\<lambda>c. c = a)"
  by (intro ext) simp

lemma ws_not_tag: "is_ws c \<Longrightarrow> c \<noteq> CHR ''/'' \<and> c \<noteq> CHR '']''"
  by (auto simp: is_ws_def)

lemma slash_exact:
  "m (Rep True 0 (Some 1) (Chr (Lit (CHR ''/'')))) (MState j pv r cs)
     (\<lambda>y. m (Seq (stri '']'') Eps) y Some) =
   (if length (takeWhile (\<lambda>c. c = CHR ''/'') r) \<le> 1 \<and>
       take 1 (dropWhile (\<lambda>c. c = CHR ''/'') r) = '']''
    then Some (MState (j + length (takeWhile (\<lambda>c. c = CHR ''/'') r) + 1)
                 (Some (CHR '']'')) (drop 1 (dropWhile (\<lambda>c. c = CHR ''/'') r)) cs)
    else None)"
proof -
  let ?K = "\<lambda>y. m (Seq (stri '']'') Eps) y Some"
  have K: "?K (MState j' pv' w cs') =
      (if take 1 w = '']'' then Some (MState (j' + 1) (Some (CHR '']'')) (drop 1 w) cs') else None)"
    for j' pv' w cs'
    using m_stri [of "'']''" j' pv' w cs' Some]
    by (cases w) (simp_all del: m.simps(5,6))
  have f: "?K (MState j' pv' (c # w) cs) = None" if "cls_ok (Lit (CHR ''/'')) c" for j' pv' c w
    using that unfolding K by simp
  have "m (Rep True 0 (Some 1) (Chr (Lit (CHR ''/'')))) (MState j pv r cs) ?K =
      (if 0 \<le> length (takeWhile (cls_ok (Lit (CHR ''/''))) r) \<and>
          within (Some 1) (length (takeWhile (cls_ok (Lit (CHR ''/''))) r))
       then ?K (MState (j + length (takeWhile (cls_ok (Lit (CHR ''/''))) r))
                  (prev_after pv (takeWhile (cls_ok (Lit (CHR ''/''))) r))
                  (dropWhile (cls_ok (Lit (CHR ''/''))) r) cs)
       else None)"
    by (rule m_greedy_exact [where K = "?K", OF f]) (simp_all add: below_def)
  then show ?thesis
    unfolding K cls_lit by (simp add: within_def cong: if_cong)
qed

lemma br_tag_match:
  "map_option pos (match_at re_br i pv v) = map_option (\<lambda>n. i + n) (br_tag v)"
proof (cases "ci_prefix ''[br'' v")
  case False
  have "match_at re_br i pv v = None"
    unfolding match_at_def re_br_def seqs_Cons seqs_Nil
    by (subst m.simps(3), subst m_stri) (simp only: False if_False)
  then show ?thesis
    by (simp add: br_tag_def False)
next
  case True
  let ?K1 = "\<lambda>y. m (Seq (Rep True 0 (Some 1) (Chr (Lit (CHR ''/'')))) (Seq (stri '']'') Eps)) y Some"
  have K1: "?K1 (MState j' pv' w cs') =
       m (Rep True 0 (Some 1) (Chr (Lit (CHR ''/'')))) (MState j' pv' w cs')
         (\<lambda>y. m (Seq (stri '']'') Eps) y Some)" for j' pv' w cs'
    by (subst m.simps(3)) (rule refl)
  have f: "?K1 (MState j' pv' (c # w) Map.empty) = None" if "cls_ok Space c" for j' pv' c w
    using that ws_not_tag [of c] unfolding K1 slash_exact by simp
  have "match_at re_br i pv v =
        m (Rep True 0 None (Chr Space))
          (MState (i + length ''[br'') (prev_after pv (take (length ''[br'') v))
             (drop (length ''[br'') v) Map.empty) ?K1"
    unfolding match_at_def re_br_def seqs_Cons seqs_Nil star_def opt_def
    by (subst m.simps(3), subst m_stri, simp only: True if_True, subst m.simps(3)) (rule refl)
  also have "\<dots> =
      (if 0 \<le> length (takeWhile (cls_ok Space) (drop (length ''[br'') v)) \<and>
          within None (length (takeWhile (cls_ok Space) (drop (length ''[br'') v)))
       then ?K1 (MState (i + length ''[br'' + length (takeWhile (cls_ok Space) (drop (length ''[br'') v)))
                  (prev_after (prev_after pv (take (length ''[br'') v))
                     (takeWhile (cls_ok Space) (drop (length ''[br'') v)))
                  (dropWhile (cls_ok Space) (drop (length ''[br'') v)) Map.empty)
       else None)"
    by (rule m_greedy_exact [where K = "?K1", OF f]) (simp_all add: below_def)
  finally show ?thesis
    unfolding K1 slash_exact cls_space br_tag_def
    by (simp add: True within_def Let_def numeral_3_eq_3 cong: if_cong)
qed

lemma bgg_br_walk: "bgg_br s = walk (\<lambda>v. map_option (\<lambda>n. (n, ''  '' @ [nl])) (br_tag v)) 0 s"
  unfolding bgg_br_def
proof (rule replace_g_walk)
  fix i pv v
  assume "map_option (\<lambda>n. (n, ''  '' @ [nl])) (br_tag v) = None"
  then show "match_at re_br i pv v = None"
    using br_tag_match [of i pv v] by simp
next
  fix i pv v n out
  assume "map_option (\<lambda>n. (n, ''  '' @ [nl])) (br_tag v) = Some (n, out)"
  then have b: "br_tag v = Some n" "out = ''  '' @ [nl]"
    by auto
  then have "n \<noteq> 0"
    by (auto simp: br_tag_def Let_def split: if_splits)
  with b br_tag_match [of i pv v]
  show "\<exists>y. match_at re_br i pv v = Some y \<and> pos y = i + n \<and> n \<noteq> 0 \<and> ''  '' @ [nl] = out"
    by auto
next
  show "map_option (\<lambda>n. (n, ''  '' @ [nl])) (br_tag []) = None"
    by (simp add: br_tag_def)
qed

lemma br_tag_open: "c \<noteq> CHR ''['' \<Longrightarrow> br_tag (c # v) = None"
  by (simp add: br_tag_def)

lemma bgg_br_link:
  assumes "CHR ''['' \<notin> set pre" and "CHR ''['' \<notin> set w" and "br_tag (CHR ''['' # w) = None"
  shows "bgg_br (pre @ CHR ''['' # w) = pre @ CHR ''['' # w"
proof -
  let ?P = "\<lambda>v. map_option (\<lambda>n. (n, ''  '' @ [nl])) (br_tag v)"
  have o: "?P (c # v) = None" if "c \<noteq> CHR ''[''" for c v
    using that by (simp add: br_tag_open)
  have "walk ?P 0 (pre @ CHR ''['' # w) = pre @ walk ?P 0 (CHR ''['' # w)"
    using o assms(1) by (rule walk_pre)
  also have "walk ?P 0 (CHR ''['' # w) = CHR ''['' # walk ?P 0 w"
    using assms(3) by simp
  also have "walk ?P 0 w = w"
    using o assms(2) by (rule walk_free)
  finally show ?thesis
    by (simp add: bgg_br_walk)
qed

subsection \<open>The thing and user tags\<close>

definition all_digits :: "string \<Rightarrow> bool" where
  "all_digits ds = (ds \<noteq> [] \<and> list_all (\<lambda>c. c \<in> set digits) ds)"

lemma all_digits_cls: "all_digits ds \<Longrightarrow> list_all (cls_ok Digit) ds"
  by (simp add: all_digits_def list_all_iff)

lemma match_thing:
  assumes "all_digits ds" and "CHR ''['' \<notin> set body"
  shows "match_at re_thing i pv (''[thing='' @ ds @ '']'' @ body @ ''[/thing]'' @ post) =
           Some (MState (i + length (''[thing='' @ ds @ '']'' @ body @ ''[/thing]'')) (Some (CHR '']'')) post
                   [1 \<mapsto> ds, 2 \<mapsto> body])"
proof -
  let ?cs = "[1 \<mapsto> ds]"
  have t: "m (Seq (Grp 2 lazy_any) (Seq (stri ''[/thing]'') Eps))
             (MState j pv' (body @ ''[/thing]'' @ post) ?cs) Some =
           Some (MState (j + length (body @ ''[/thing]'')) (Some (CHR '']'')) post [1 \<mapsto> ds, 2 \<mapsto> body])" for j pv'
    using m_lazy_close [OF assms(2) flip_case_bracket, of 2 "''/thing]''" j pv' post ?cs]
    by simp
  have r: "m (Seq (stri '']'') (Seq (Grp 2 lazy_any) (Seq (stri ''[/thing]'') Eps)))
             (MState j pv' ('']'' @ body @ ''[/thing]'' @ post) ?cs) Some =
           Some (MState (j + length ('']'' @ body @ ''[/thing]'')) (Some (CHR '']'')) post [1 \<mapsto> ds, 2 \<mapsto> body])" for j pv'
    using t [of "Suc j" "Some (CHR '']'')"] by (simp add: stri_Cons)
  have g: "m (Grp 1 (Rep True 1 None (Chr Digit))) (MState j pv' (ds @ '']'' @ body @ ''[/thing]'' @ post) Map.empty)
             (\<lambda>y. m (Seq (stri '']'') (Seq (Grp 2 lazy_any) (Seq (stri ''[/thing]'') Eps))) y Some) =
           Some (MState (j + length (ds @ '']'' @ body @ ''[/thing]'')) (Some (CHR '']'')) post [1 \<mapsto> ds, 2 \<mapsto> body])" for j pv'
  proof (rule m_greedy_run_grp)
    show "list_all (cls_ok Digit) ds"
      using assms(1) by (rule all_digits_cls)
    show "'']'' @ body @ ''[/thing]'' @ post = [] \<or> \<not> cls_ok Digit (hd ('']'' @ body @ ''[/thing]'' @ post))"
      by (simp add: digits_def)
    show "1 \<le> length ds"
      using assms(1) by (cases ds) (auto simp: all_digits_def)
    show "within None (length ds)"
      by (simp add: within_def)
    show "m (Seq (stri '']'') (Seq (Grp 2 lazy_any) (Seq (stri ''[/thing]'') Eps)))
            (MState (j + length ds) (prev_after pv' ds) ('']'' @ body @ ''[/thing]'' @ post) [1 \<mapsto> ds]) Some =
          Some (MState (j + length (ds @ '']'' @ body @ ''[/thing]'')) (Some (CHR '']'')) post [1 \<mapsto> ds, 2 \<mapsto> body])"
      using r [of "j + length ds" "prev_after pv' ds"] by (simp add: add.assoc)
  qed
  show ?thesis
    using g [of "i + length ''[thing=''" "Some (CHR ''='')"]
    by (simp add: match_at_def re_thing_def plus_def m_stri del: m.simps(5,6))
qed


lemma match_user:
  assumes "all_digits ds" and "CHR ''['' \<notin> set body"
  shows "match_at re_user i pv (''[user='' @ ds @ '']'' @ body @ ''[/user]'' @ post) =
           Some (MState (i + length (''[user='' @ ds @ '']'' @ body @ ''[/user]'')) (Some (CHR '']'')) post
                   [1 \<mapsto> body])"
proof -
  have t: "m (Seq (Grp 1 lazy_any) (Seq (stri ''[/user]'') Eps))
             (MState j pv' (body @ ''[/user]'' @ post) Map.empty) Some =
           Some (MState (j + length (body @ ''[/user]'')) (Some (CHR '']'')) post [1 \<mapsto> body])" for j pv'
    using m_lazy_close [OF assms(2) flip_case_bracket, of 1 "''/user]''" j pv' post Map.empty]
    by simp
  have r: "m (Seq (stri '']'') (Seq (Grp 1 lazy_any) (Seq (stri ''[/user]'') Eps)))
             (MState j pv' ('']'' @ body @ ''[/user]'' @ post) Map.empty) Some =
           Some (MState (j + length ('']'' @ body @ ''[/user]'')) (Some (CHR '']'')) post [1 \<mapsto> body])" for j pv'
    using t [of "Suc j" "Some (CHR '']'')"] by (simp add: stri_Cons)
  have g: "m (Rep True 1 None (Chr Digit)) (MState j pv' (ds @ '']'' @ body @ ''[/user]'' @ post) Map.empty)
             (\<lambda>y. m (Seq (stri '']'') (Seq (Grp 1 lazy_any) (Seq (stri ''[/user]'') Eps))) y Some) =
           Some (MState (j + length (ds @ '']'' @ body @ ''[/user]'')) (Some (CHR '']'')) post [1 \<mapsto> body])" for j pv'
  proof (rule m_greedy_run)
    show "list_all (cls_ok Digit) ds"
      using assms(1) by (rule all_digits_cls)
    show "'']'' @ body @ ''[/user]'' @ post = [] \<or> \<not> cls_ok Digit (hd ('']'' @ body @ ''[/user]'' @ post))"
      by (simp add: digits_def)
    show "1 \<le> length ds"
      using assms(1) by (cases ds) (auto simp: all_digits_def)
    show "within None (length ds)"
      by (simp add: within_def)
    show "m (Seq (stri '']'') (Seq (Grp 1 lazy_any) (Seq (stri ''[/user]'') Eps)))
            (MState (j + length ds) (prev_after pv' ds) ('']'' @ body @ ''[/user]'' @ post) Map.empty) Some =
          Some (MState (j + length (ds @ '']'' @ body @ ''[/user]'')) (Some (CHR '']'')) post [1 \<mapsto> body])"
      using r [of "j + length ds" "prev_after pv' ds"] by (simp add: add.assoc)
  qed
  show ?thesis
    using g [of "i + length ''[user=''" "Some (CHR ''='')"]
    by (simp add: match_at_def re_user_def plus_def m_stri del: m.simps(5,6))
qed

lemma thing_miss: "c \<noteq> CHR ''['' \<Longrightarrow> match_at re_thing j pv' (c # s') = None"
  unfolding match_at_def re_thing_def seqs_Cons
  by (rule open_literal_fails [OF flip_case_bracket disjI1])

lemma user_miss: "c \<noteq> CHR ''['' \<Longrightarrow> match_at re_user j pv' (c # s') = None"
  unfolding match_at_def re_user_def seqs_Cons
  by (rule open_literal_fails [OF flip_case_bracket disjI1])

lemma anchor_free_stri [simp]: "anchor_free (stri u)"
  by (induction u) (simp_all add: stri_Cons)

lemma anchor_free_str [simp]: "anchor_free (str u)"
  by (induction u) (simp_all add: str_Cons)

lemma anchor_free_thing: "anchor_free re_thing"
  by (simp add: re_thing_def plus_def lazy_any_def)

lemma anchor_free_user: "anchor_free re_user"
  by (simp add: re_user_def plus_def lazy_any_def)

lemma replace_g_tag:
  assumes miss: "\<And>j pv' c s'. c \<noteq> b \<Longrightarrow> match_at r j pv' (c # s') = None"
    and "b \<notin> set pre"
    and hit: "\<And>i pv. \<exists>pv'. match_at r i pv (t @ post) = Some (MState (i + length t) pv' post cs)"
    and "t \<noteq> []" and "anchor_free r"
  shows "replace_g r f (pre @ t @ post) = pre @ f t cs @ replace_g r f post"
proof -
  obtain pv' where h: "match_at r (length pre) (prev_after None pre) (t @ post) =
      Some (MState (length pre + length t) pv' post cs)"
    using hit by blast
  have "scan r f 0 0 None (pre @ t @ post) =
          pre @ scan r f 0 (0 + length pre) (prev_after None pre) (t @ post)"
    using miss assms(2) by (rule scan_miss)
  also have "scan r f 0 (0 + length pre) (prev_after None pre) (t @ post) =
          f t cs @ scan r f 0 (length pre + length t) (prev_after (prev_after None pre) t) post"
    using scan_hit [OF h _ assms(4), of f] by simp
  also have "scan r f 0 (length pre + length t) (prev_after (prev_after None pre) t) post =
          scan r f 0 0 None post"
    using assms(5) by (rule scan_shift)
  finally show ?thesis
    by (simp add: replace_g_def)
qed

subsection \<open>Entity references through the pipeline\<close>

text \<open>
  The two entity tags read directly from the text: the length of the tag and the link that
  replaces it.
\<close>

definition thing_tag :: "string \<Rightarrow> (nat \<times> string) option" where
  "thing_tag v =
     map_option (\<lambda>(ds, body).
         (length (''[thing='' @ ds @ '']'' @ body @ ''[/thing]''),
          ''['' @ body @ ''](https://boardgamegeek.com/thing/'' @ ds @ '')''))
       (arg_tag ''[thing='' None ''[/thing]'' v)"

definition user_tag :: "string \<Rightarrow> (nat \<times> string) option" where
  "user_tag v =
     map_option (\<lambda>(ds, body).
         (length (''[user='' @ ds @ '']'' @ body @ ''[/user]''),
          ''[@'' @ body @ ''](https://boardgamegeek.com/user/'' @ body @ '')''))
       (arg_tag ''[user='' None ''[/user]'' v)"

lemma bgg_thing_walk: "bgg_thing s = walk thing_tag 0 s"
proof -
  have e: "thing_tag =
      (\<lambda>v. map_option
         (\<lambda>a. (length (''[thing='' @ fst a @ '']'' @ snd a @ ''[/thing]''),
               ''['' @ snd a @ ''](https://boardgamegeek.com/thing/'' @ fst a @ '')''))
         (arg_tag ''[thing='' None ''[/thing]'' v))"
    by (intro ext) (simp add: thing_tag_def case_prod_unfold)
  show ?thesis
    unfolding bgg_thing_def e
  proof (rule replace_g_walk_tag [where cap = "\<lambda>a. [1 \<mapsto> fst a, 2 \<mapsto> snd a]"])
    fix i pv v
    show "map_option (\<lambda>y. (pos y, caps y)) (match_at re_thing i pv v) =
          map_option (\<lambda>a. (i + length (''[thing='' @ fst a @ '']'' @ snd a @ ''[/thing]''),
                             [1 \<mapsto> fst a, 2 \<mapsto> snd a]))
            (arg_tag ''[thing='' None ''[/thing]'' v)"
      unfolding re_thing_def plus_def
      by (subst arg_tag_grp_match) (simp_all add: below_def case_prod_unfold)
  qed (simp_all add: arg_tag_def grp_def)
qed

lemma bgg_user_walk: "bgg_user s = walk user_tag 0 s"
proof -
  have e: "user_tag =
      (\<lambda>v. map_option
         (\<lambda>a. (length (''[user='' @ fst a @ '']'' @ snd a @ ''[/user]''),
               ''[@'' @ snd a @ ''](https://boardgamegeek.com/user/'' @ snd a @ '')''))
         (arg_tag ''[user='' None ''[/user]'' v))"
    by (intro ext) (simp add: user_tag_def case_prod_unfold)
  show ?thesis
    unfolding bgg_user_def e
  proof (rule replace_g_walk_tag [where cap = "\<lambda>a. [1 \<mapsto> snd a]"])
    fix i pv v
    show "map_option (\<lambda>y. (pos y, caps y)) (match_at re_user i pv v) =
          map_option (\<lambda>a. (i + length (''[user='' @ fst a @ '']'' @ snd a @ ''[/user]''),
                             [1 \<mapsto> snd a]))
            (arg_tag ''[user='' None ''[/user]'' v)"
      unfolding re_user_def plus_def
      by (subst arg_tag_match) (simp_all add: below_def case_prod_unfold)
  qed (simp_all add: arg_tag_def grp_def)
qed

text \<open>One tag after a text without \<open>[\<close>.\<close>

lemma thing_pass:
  assumes "all_digits ds" and "CHR ''['' \<notin> set pre" and "CHR ''['' \<notin> set body"
  shows "bgg_thing (pre @ ''[thing='' @ ds @ '']'' @ body @ ''[/thing]'' @ post) =
           pre @ ''['' @ body @ ''](https://boardgamegeek.com/thing/'' @ ds @ '')'' @ bgg_thing post"
proof -
  have "replace_g re_thing (\<lambda>t cs. ''['' @ grp cs 2 @ ''](https://boardgamegeek.com/thing/'' @ grp cs 1 @ '')'')
          (pre @ (''[thing='' @ ds @ '']'' @ body @ ''[/thing]'') @ post) =
        pre @ (''['' @ grp [1 \<mapsto> ds, 2 \<mapsto> body] 2 @ ''](https://boardgamegeek.com/thing/'' @
                grp [1 \<mapsto> ds, 2 \<mapsto> body] 1 @ '')'') @
        replace_g re_thing (\<lambda>t cs. ''['' @ grp cs 2 @ ''](https://boardgamegeek.com/thing/'' @ grp cs 1 @ '')'') post"
    by (rule replace_g_tag [where b = "CHR ''[''"])
       (use assms match_thing [OF assms(1,3)] in \<open>auto simp: thing_miss anchor_free_thing\<close>)
  then show ?thesis
    by (simp add: bgg_thing_def grp_def)
qed

lemma user_pass:
  assumes "all_digits ds" and "CHR ''['' \<notin> set pre" and "CHR ''['' \<notin> set body"
  shows "bgg_user (pre @ ''[user='' @ ds @ '']'' @ body @ ''[/user]'' @ post) =
           pre @ ''[@'' @ body @ ''](https://boardgamegeek.com/user/'' @ body @ '')'' @ bgg_user post"
proof -
  have "replace_g re_user (\<lambda>t cs. ''[@'' @ grp cs 1 @ ''](https://boardgamegeek.com/user/'' @ grp cs 1 @ '')'')
          (pre @ (''[user='' @ ds @ '']'' @ body @ ''[/user]'') @ post) =
        pre @ (''[@'' @ grp [1 \<mapsto> body] 1 @ ''](https://boardgamegeek.com/user/'' @
                grp [1 \<mapsto> body] 1 @ '')'') @
        replace_g re_user (\<lambda>t cs. ''[@'' @ grp cs 1 @ ''](https://boardgamegeek.com/user/'' @ grp cs 1 @ '')'') post"
    by (rule replace_g_tag [where b = "CHR ''[''"])
       (use assms match_user [OF assms(1,3)] in \<open>auto simp: user_miss anchor_free_user\<close>)
  then show ?thesis
    by (simp add: bgg_user_def grp_def)
qed

lemma digits_no_bracket:
  assumes "all_digits ds"
  shows "CHR ''['' \<notin> set ds"
proof
  assume "CHR ''['' \<in> set ds"
  with assms have "CHR ''['' \<in> set digits"
    unfolding all_digits_def list_all_iff by blast
  then show False
    by (simp add: digits_def)
qed

lemma no_code_tag:
  "no_tag ''code]'' s \<Longrightarrow> all_after (CHR ''['') (\<lambda>v. \<not> ci_prefix ''code]'' v \<or> CHR ''['' \<notin> set v) s"
  by (simp add: no_tag_def)

lemma thing_pipeline:
  assumes "all_digits ds" and "CHR ''['' \<notin> set pre" and "CHR ''['' \<notin> set body"
    and "CHR ''['' \<notin> set post"
    and "br_tag (''['' @ body @ ''](https://boardgamegeek.com/thing/'' @ ds @ '')'' @ post) = None"
  shows "bggToMarkdown (pre @ ''[thing='' @ ds @ '']'' @ body @ ''[/thing]'' @ post) =
           Some (pre @ ''['' @ body @ ''](https://boardgamegeek.com/thing/'' @ ds @ '')'' @ post)"
proof -
  let ?I = "pre @ ''[thing='' @ ds @ '']'' @ body @ ''[/thing]'' @ post"
  let ?O = "pre @ ''['' @ body @ ''](https://boardgamegeek.com/thing/'' @ ds @ '')'' @ post"
  note nb = assms(2-4) digits_no_bracket [OF assms(1)]
  have before: "no_tag ''code]'' ?I" "no_tag ''tt]'' ?I" "no_tag ''b]'' ?I" "no_tag ''i]'' ?I"
    "no_tag ''u]'' ?I" "no_tag ''s]'' ?I" "no_tag ''-]'' ?I" "no_tag ''url='' ?I" "no_tag ''img]'' ?I"
    using nb by (simp_all add: no_tag_def all_after_append all_after_none)
  have after: "no_tag u ?O" for u
    using nb by (simp add: no_tag_def all_after_append all_after_none)
  have br: "bgg_br ?O = ?O"
    using bgg_br_link [OF assms(2) _ assms(5) [simplified]] nb by simp
  have t: "bgg_thing ?I = ?O"
    using thing_pass [OF assms(1,2,3), of post] bgg_thing_id [OF no_tag_none [OF assms(4)]]
    by simp
  have "run_passes bgg_passes ?I = ?O"
    unfolding run_passes_def bgg_passes_def fold.simps comp_def id_def
    by (simp only: before bgg_code_id bgg_tt_id bgg_b_id bgg_i_id bgg_u_id bgg_s_id bgg_strike_id
          bgg_url_id bgg_img_id t after bgg_user_id bgg_quote_id bgg_list_id bgg_olist_id
          bgg_size_id br)
  moreover have "all_after (CHR ''['') (\<lambda>v. \<not> ci_prefix ''code]'' v) ?I"
    using nb by (simp add: all_after_append all_after_none)
  ultimately show ?thesis
    by (simp add: bggToMarkdown_unprotected)
qed

lemma user_pipeline:
  assumes "all_digits ds" and "CHR ''['' \<notin> set pre" and "CHR ''['' \<notin> set body"
    and "CHR ''['' \<notin> set post"
  shows "bggToMarkdown (pre @ ''[user='' @ ds @ '']'' @ body @ ''[/user]'' @ post) =
           Some (pre @ ''[@'' @ body @ ''](https://boardgamegeek.com/user/'' @ body @ '')'' @ post)"
proof -
  let ?I = "pre @ ''[user='' @ ds @ '']'' @ body @ ''[/user]'' @ post"
  let ?O = "pre @ ''[@'' @ body @ ''](https://boardgamegeek.com/user/'' @ body @ '')'' @ post"
  note nb = assms(2-4) digits_no_bracket [OF assms(1)]
  have before: "no_tag ''code]'' ?I" "no_tag ''tt]'' ?I" "no_tag ''b]'' ?I" "no_tag ''i]'' ?I"
    "no_tag ''u]'' ?I" "no_tag ''s]'' ?I" "no_tag ''-]'' ?I" "no_tag ''url='' ?I" "no_tag ''img]'' ?I"
    "no_tag ''thing='' ?I"
    using nb by (simp_all add: no_tag_def all_after_append all_after_none)
  have after: "no_tag u ?O" for u
    using nb by (simp add: no_tag_def all_after_append all_after_none)
  have br: "no_br ?O"
    using nb by (simp add: no_br_def all_after_append all_after_none)
  have t: "bgg_user ?I = ?O"
    using user_pass [OF assms(1,2,3), of post] bgg_user_id [OF no_tag_none [OF assms(4)]]
    by simp
  have "run_passes bgg_passes ?I = ?O"
    unfolding run_passes_def bgg_passes_def fold.simps comp_def id_def
    by (simp only: before bgg_code_id bgg_tt_id bgg_b_id bgg_i_id bgg_u_id bgg_s_id bgg_strike_id
          bgg_url_id bgg_img_id bgg_thing_id t after bgg_quote_id bgg_list_id bgg_olist_id
          bgg_size_id br bgg_br_id)
  moreover have "all_after (CHR ''['') (\<lambda>v. \<not> ci_prefix ''code]'' v) ?I"
    using nb by (simp add: all_after_append all_after_none)
  ultimately show ?thesis
    by (simp add: bggToMarkdown_unprotected)
qed

subsection \<open>Sizes\<close>


































subsection \<open>Lists\<close>



























section \<open>Entity references (claim C4)\<close>

text \<open>
  Claim C4, as amended. The thing pass and the user pass of bggToMarkdown replace every
  entity-reference tag of their text, from left to right, by a link into the canonical
  address: the pass over \<open>[thing=ID]body[/thing]\<close> is the walk that replaces each tag read by
  \<open>thing_tag\<close> (\<open>[thing=\<close>, a run of digits, \<open>]\<close>, the body up to the first \<open>[/thing]\<close>) by
  \<open>[body](https://boardgamegeek.com/thing/ID)\<close>, and the pass over \<open>[user=N]body[/user]\<close> is
  the walk that replaces each tag read by \<open>user_tag\<close> by
  \<open>[@body](https://boardgamegeek.com/user/body)\<close>: the visible text of a thing link is the
  body, that of a user link is \<open>@\<close> followed by the body. Both hold for every text.
  These links are the output of bggToMarkdown on two tags in one text, on a tag between
  other markup, and on a thing tag followed by a user tag. They are the output as well
  whenever the tag stands in a text without any other \<open>[\<close> (for a thing tag: provided the
  line-break pass does not read the link text as a tag of its own, which \<open>br_tag\<close> decides).
\<close>

theorem entity_reference_links:
  "bgg_thing s = walk thing_tag 0 s \<and>
   bgg_user s = walk user_tag 0 s \<and>
   bggToMarkdown ''[thing=13]Catan[/thing] and [thing=822]Carcassonne[/thing]'' =
     Some ''[Catan](https://boardgamegeek.com/thing/13) and [Carcassonne](https://boardgamegeek.com/thing/822)'' \<and>
   bggToMarkdown ''[b]x[/b] [thing=28720]Brass[/thing] [i]y[/i]'' =
     Some ''**x** [Brass](https://boardgamegeek.com/thing/28720) *y*'' \<and>
   bggToMarkdown ''[thing=13]Catan[/thing] by [user=5]bob[/user]'' =
     Some ''[Catan](https://boardgamegeek.com/thing/13) by [@bob](https://boardgamegeek.com/user/bob)'' \<and>
   (all_digits ds \<and> CHR ''['' \<notin> set pre \<and> CHR ''['' \<notin> set body \<and> CHR ''['' \<notin> set post \<longrightarrow>
      (br_tag (''['' @ body @ ''](https://boardgamegeek.com/thing/'' @ ds @ '')'' @ post) = None \<longrightarrow>
       bggToMarkdown (pre @ ''[thing='' @ ds @ '']'' @ body @ ''[/thing]'' @ post) =
         Some (pre @ ''['' @ body @ ''](https://boardgamegeek.com/thing/'' @ ds @ '')'' @ post)) \<and>
      bggToMarkdown (pre @ ''[user='' @ ds @ '']'' @ body @ ''[/user]'' @ post) =
        Some (pre @ ''[@'' @ body @ ''](https://boardgamegeek.com/user/'' @ body @ '')'' @ post))"
proof -
  have 1: "bggToMarkdown ''[thing=13]Catan[/thing] and [thing=822]Carcassonne[/thing]'' =
     Some ''[Catan](https://boardgamegeek.com/thing/13) and [Carcassonne](https://boardgamegeek.com/thing/822)''"
    by code_simp
  have 2: "bggToMarkdown ''[b]x[/b] [thing=28720]Brass[/thing] [i]y[/i]'' =
     Some ''**x** [Brass](https://boardgamegeek.com/thing/28720) *y*''"
    by code_simp
  have 3: "bggToMarkdown ''[thing=13]Catan[/thing] by [user=5]bob[/user]'' =
     Some ''[Catan](https://boardgamegeek.com/thing/13) by [@bob](https://boardgamegeek.com/user/bob)''"
    by code_simp
  show ?thesis
    by (intro conjI impI bgg_thing_walk bgg_user_walk 1 2 3; (elim conjE)?)
       (erule (4) thing_pipeline, erule (3) user_pipeline)
qed

theorem entity_reference_links_witness:
  "all_digits ''13'' \<and> CHR ''['' \<notin> set ''See '' \<and> CHR ''['' \<notin> set ''Catan'' \<and>
   CHR ''['' \<notin> set ''!'' \<and>
   br_tag (''['' @ ''Catan'' @ ''](https://boardgamegeek.com/thing/'' @ ''13'' @ '')'' @ ''!'') = None \<and>
   bgg_thing ''See [thing=13]Catan[/thing]!'' = walk thing_tag 0 ''See [thing=13]Catan[/thing]!'' \<and>
   walk thing_tag 0 ''See [thing=13]Catan[/thing]!'' = ''See [Catan](https://boardgamegeek.com/thing/13)!'' \<and>
   walk user_tag 0 ''See [user=13]Catan[/user]!'' = ''See [@Catan](https://boardgamegeek.com/user/Catan)!'' \<and>
   bggToMarkdown ''See [thing=13]Catan[/thing]!'' =
     Some ''See [Catan](https://boardgamegeek.com/thing/13)!'' \<and>
   bggToMarkdown ''See [user=13]Catan[/user]!'' =
     Some ''See [@Catan](https://boardgamegeek.com/user/Catan)!''"
proof -
  have h: "all_digits ''13''" "CHR ''['' \<notin> set ''See ''" "CHR ''['' \<notin> set ''Catan''"
    "CHR ''['' \<notin> set ''!''"
    by (simp_all add: all_digits_def digits_def)
  have b: "br_tag (''['' @ ''Catan'' @ ''](https://boardgamegeek.com/thing/'' @ ''13'' @ '')'' @ ''!'') = None"
    by (simp add: br_tag_def)
  have w: "walk thing_tag 0 ''See [thing=13]Catan[/thing]!'' = ''See [Catan](https://boardgamegeek.com/thing/13)!''"
    "walk user_tag 0 ''See [user=13]Catan[/user]!'' = ''See [@Catan](https://boardgamegeek.com/user/Catan)!''"
    by code_simp+
  show ?thesis
    using h b w
      entity_reference_links [of "''See [thing=13]Catan[/thing]!''" "''13''" "''See ''" "''Catan''" "''!''"]
    by simp
qed

text \<open>
  The claim as stated gives the user link the tag body as its visible text: the code puts
  \<open>@\<close> before it. The claim also speaks of the output of bggToMarkdown for every thing tag:
  a body that the later line-break pass reads as a tag does not stay the visible text of the
  link.
\<close>

theorem entity_link_counterexamples:
  "bggToMarkdown ''[user=5]bob[/user]'' = Some ''[@bob](https://boardgamegeek.com/user/bob)'' \<and>
   bggToMarkdown ''[user=5]bob[/user]'' \<noteq> Some ''[bob](https://boardgamegeek.com/user/bob)'' \<and>
   bggToMarkdown ''[thing=1]br[/thing]'' = Some (''  '' @ [nl] @ ''(https://boardgamegeek.com/thing/1)'') \<and>
   bggToMarkdown ''[thing=1]br[/thing]'' \<noteq> Some ''[br](https://boardgamegeek.com/thing/1)''"
  by code_simp
section \<open>Size tags (claim C5)\<close>



section \<open>Lists (claim C7)\<close>


section \<open>Code blocks (claims C1 and C3)\<close>

text \<open>
  Claim C1: a protected \<open>[code]...[/code]\<close> pair is rendered as a fenced block by
  bggToMarkdown, and a protected fenced block as a \<open>[code]\<close> pair by markdownToBgg. The code
  does neither. The protector replaces the span by its token before the translating pass
  runs, so that pass never sees it, and the restorer puts the untranslated span back:
  \<open>[code]x[/code]\<close> comes out as it went in. In the other direction the token itself is
  rewritten by the underscore-italic pass and is never restored.
\<close>

theorem code_blocks_not_translated:
  "bggToMarkdown ''[code]x[/code]'' = Some ''[code]x[/code]'' \<and>
   markdownToBgg (fence @ ''\<newline>ab\<newline>'' @ fence) = Some ''__PROTECTED[i]CODE[/i]FENCE[i]0_[/i]''"
  by code_simp

text \<open>
  Claim C3: the body of a protected code span appears byte for byte in the output. For a
  fenced block given to markdownToBgg it does not: the token \<open>__PROTECTED_CODE_FENCE_0__\<close>
  holds \<open>_CODE_\<close> and \<open>_0__\<close>, which the underscore-italic pass turns into \<open>[i]\<close> tags, so
  the restorer no longer finds the token and the body \<open>*x*\<close> is lost.
\<close>

theorem fenced_body_lost:
  "markdownToBgg (fence @ ''\<newline>*x*\<newline>'' @ fence) = Some ''__PROTECTED[i]CODE[/i]FENCE[i]0_[/i]''"
  by code_simp

section \<open>Images (claim C2)\<close>

text \<open>
  Claim C2: markdownToBgg turns \<open>![alt](url)\<close> into \<open>[img]url[/img]\<close> for every alt text.
  With a non-empty alt text the link pass, which runs first, matches \<open>[alt](url)\<close> inside
  the image and the image pass finds nothing left; the output keeps the \<open>!\<close> and the alt
  text.
\<close>

theorem image_with_alt_becomes_link:
  "markdownToBgg ''![alt](https://x.com/a.png)'' = Some ''![url=https://x.com/a.png]alt[/url]''"
  by code_simp

section \<open>Sizes and headings (claim C6)\<close>

lemma round_trip_at:
  "list_all (\<lambda>d. sizeToHeading (show_nat (headingToSize (replicate d (CHR ''#'')))) =
                     Some (replicate d (CHR ''#'')) \<and>
                  headingToSize (replicate d (CHR ''#'')) = [24, 18, 16, 14, 12, 10] ! (d - 1))
            [1, 2, 3, 4, 5, 6]"
  by code_simp

text \<open>
  Claim C6: for every heading depth d from 1 to 6, headingToSize of d hashes is the
  representative size of the depth (24, 18, 16, 14, 12, 10), and sizeToHeading of that
  size (as the decimal string the number converts to) is d hashes again.
\<close>

theorem size_heading_round_trip:
  assumes "1 \<le> d" and "d \<le> 6"
  shows "sizeToHeading (show_nat (headingToSize (replicate d (CHR ''#'')))) =
           Some (replicate d (CHR ''#'')) \<and>
         headingToSize (replicate d (CHR ''#'')) = [24, 18, 16, 14, 12, 10] ! (d - 1)"
proof -
  from assms have "d \<in> set [1, 2, 3, 4, 5, 6]"
    by auto
  with round_trip_at show ?thesis
    unfolding list_all_iff by blast
qed

theorem size_heading_round_trip_witness:
  "sizeToHeading (show_nat (headingToSize ''###'')) = Some ''###'' \<and> headingToSize ''###'' = 16"
proof -
  have r: "replicate 3 (CHR ''#'') = ''###''"
    by (simp add: numeral_3_eq_3)
  have n: "[24, 18, 16, 14, 12, 10::nat] ! (3 - 1) = 16"
    by simp
  have "sizeToHeading (show_nat (headingToSize (replicate 3 (CHR ''#'')))) =
          Some (replicate 3 (CHR ''#'')) \<and>
        headingToSize (replicate 3 (CHR ''#'')) = [24, 18, 16, 14, 12, 10] ! (3 - 1)"
    by (rule size_heading_round_trip) simp_all
  then show ?thesis
    unfolding r n .
qed

section \<open>The reverse example (claim C8)\<close>

text \<open>
  Claim C8: markdownToBgg of \<open>**Bold** and [link](https://boardgamegeek.com/thing/13)\<close> is
  \<open>[b]Bold[/b] and [thing=13]link[/thing]\<close>.
\<close>

theorem reverse_bold_and_thing_link:
  "markdownToBgg ''**Bold** and [link](https://boardgamegeek.com/thing/13)'' =
     Some ''[b]Bold[/b] and [thing=13]link[/thing]''"
  by code_simp
section \<open>convert (claim C10)\<close>

text \<open>
  Claim C10. For every text and every direction value, convert gives the result of
  bggToMarkdown when the direction is the string \<open>bgg2md\<close>, and the result of markdownToBgg
  for every other value: another string (also \<open>md2bgg\<close> and \<open>BGG2MD\<close>), undefined, null, a
  boolean or a number. No value of the direction is an error of its own: the fallback is
  the reverse conversion.
\<close>

theorem convert_dispatch:
  "convert text d = (if d = JStr ''bgg2md'' then bggToMarkdown text else markdownToBgg text) \<and>
   convert ''[b]a[/b]'' (JStr ''bgg2md'') = Some ''**a**'' \<and>
   convert ''**a**'' (JStr ''md2bgg'') = Some ''[b]a[/b]'' \<and>
   convert ''**a**'' (JStr ''BGG2MD'') = Some ''[b]a[/b]'' \<and>
   convert ''**a**'' (JStr []) = Some ''[b]a[/b]'' \<and>
   convert ''**a**'' JUndefined = Some ''[b]a[/b]'' \<and>
   convert ''**a**'' JNull = Some ''[b]a[/b]'' \<and>
   convert ''**a**'' (JBool True) = Some ''[b]a[/b]'' \<and>
   convert ''**a**'' (JNum 0) = Some ''[b]a[/b]''"
proof -
  have "convert ''[b]a[/b]'' (JStr ''bgg2md'') = Some ''**a**''"
    by code_simp
  moreover have "markdownToBgg ''**a**'' = Some ''[b]a[/b]''"
    by code_simp
  ultimately show ?thesis
    by (simp add: convert_def)
qed

end
